theory Spec2Isabelle
  imports
    Complex_Main
    "HOL-Library.Word"
    "HOL-Library.Monad_Syntax"
    "HOL-Library.Signed_Division"
begin

unbundle bit_operations_syntax

section \<open>Fractal Traveller: the number types and constants of FTRAVEL.C\<close>

text \<open>
  The program is one C file. Its \<^verbatim>\<open>int\<close> values are modelled by \<^typ>\<open>int\<close>, without a
  bound: the statements hold in particular for the values the program works with (pixel
  coordinates within the 1024 x 768 screen, counters below 4096), on which no C
  arithmetic overflows. Its \<^verbatim>\<open>double\<close> values are modelled by the real numbers, that
  is, without rounding. The theorems below do not lean on properties of exact arithmetic
  that rounding would destroy: they are about loop counters, about values that the
  program copies from one variable to another, and about concrete inputs whose
  arithmetic stays on small integers and on fractions that are compared, not rounded.
  The step at which an escape-time loop stops does depend on rounding; the statement
  about it is made over an arithmetic of which nothing is assumed.

  The definitions come first, in the order of the source; the lemmas and theorems
  follow in the last section.
\<close>

type_synonym double = real

definition Xres :: int where "Xres = 1024"
definition Yres :: int where "Yres = 768"
definition Xmax :: int where "Xmax = Xres"
definition Ymax :: int where "Ymax = Yres"
definition ipp :: int where "ipp = 0xFF"
definition orbit_iter_limit :: int where "orbit_iter_limit = 0xFFF"
definition probe_size :: int where "probe_size = 0x180"

text \<open>
  The macros \<^verbatim>\<open>Re_Z\<close> and \<^verbatim>\<open>Im_Z\<close> are bound to the quadratic map:
  \<^verbatim>\<open>#define Re_Z2 X*X-Y*Y\<close> and \<^verbatim>\<open>#define Im_Z2 2*oX*Y\<close>, where \<^verbatim>\<open>oX\<close> holds the
  value of \<^verbatim>\<open>X\<close> from before the assignment to \<^verbatim>\<open>X\<close>.
\<close>

definition Re_Z :: "double \<Rightarrow> double \<Rightarrow> double" where
  "Re_Z X Y = X * X - Y * Y"

definition Im_Z :: "double \<Rightarrow> double \<Rightarrow> double" where
  "Im_Z oX Y = 2 * oX * Y"

section \<open>The escape-time iterators\<close>

text \<open>
  \<^verbatim>\<open>mandel_iterator\<close>, \<^verbatim>\<open>julia_iterator\<close> and the priming loop of \<^verbatim>\<open>orbit_iterator\<close>
  run the same loop
  \<^verbatim>\<open>while ( X*X+Y*Y <= 4 && ++i < cap ) { oX = X; X = Re_Z+a; Y = Im_Z+b; }\<close>
  and differ in the cap and in the constant \<open>(a, b)\<close> that is added. The condition
  short-cuts: the counter is incremented only when the radius test has passed, and it
  is incremented also when the comparison with the cap then fails.
\<close>

function iter_while :: "int \<Rightarrow> double \<Rightarrow> double \<Rightarrow> double \<Rightarrow> double \<Rightarrow> int \<Rightarrow> int" where
  "iter_while cap a b X Y i =
     (if X * X + Y * Y \<le> 4 then
        (if i + 1 < cap then iter_while cap a b (Re_Z X Y + a) (Im_Z X Y + b) (i + 1)
         else i + 1)
      else i)"
  by pat_completeness auto
termination
  by (relation "measure (\<lambda>(cap, a, b, X, Y, i). nat (cap - i))") auto

declare iter_while.simps [simp del]

definition mandel_iterator :: "double \<Rightarrow> double \<Rightarrow> int" where
  "mandel_iterator x y = iter_while ipp x y x y 0"

text \<open>\<^verbatim>\<open>julia_iterator\<close> reads the globals \<^verbatim>\<open>cx\<close> and \<^verbatim>\<open>cy\<close>; here they are arguments.\<close>

definition julia_iterator :: "double \<Rightarrow> double \<Rightarrow> double \<Rightarrow> double \<Rightarrow> int" where
  "julia_iterator cx cy x y = iter_while ipp cx cy x y 0"

subsection \<open>The orbit the loops walk along\<close>

text \<open>
  For the statements about "the step at which the orbit escapes" the sequence of
  iterates is defined on its own: \<open>orbit a b z k\<close> is the point after \<open>k\<close> updates
  \<open>z \<mapsto> z\<^sup>2 + (a, b)\<close>, and \<open>inside z\<close> is the radius test of the loops.
\<close>

definition qstep :: "double \<Rightarrow> double \<Rightarrow> double \<times> double \<Rightarrow> double \<times> double" where
  "qstep a b z = (Re_Z (fst z) (snd z) + a, Im_Z (fst z) (snd z) + b)"

definition orbit :: "double \<Rightarrow> double \<Rightarrow> double \<times> double \<Rightarrow> nat \<Rightarrow> double \<times> double" where
  "orbit a b z k = (qstep a b ^^ k) z"

definition inside :: "double \<times> double \<Rightarrow> bool" where
  "inside z = (fst z * fst z + snd z * snd z \<le> 4)"



subsection \<open>The same loop over an arbitrary arithmetic\<close>

text \<open>
  The value a run of the loop returns depends on how the machine rounds: the radius
  test compares the computed sum \<^verbatim>\<open>X*X+Y*Y\<close> with 4, and a computed sum can be 4 for
  a point that lies outside the circle. For the statement about the step at which the
  loop stops, the loop is therefore written a second time over a type \<open>'d\<close> of
  \<^verbatim>\<open>double\<close> values of which nothing is assumed. \<open>ops\<close> gives the five operations
  the loop uses: the product, the sum and the difference of two values, the comparison
  \<^verbatim>\<open><=\<close>, and the conversion of an \<^verbatim>\<open>int\<close> constant. \<open>real_ops\<close> are the operations
  of the real numbers; with them the loop is \<open>iter_while\<close> (\<open>iter_while_fp_real\<close>
  below).
\<close>

record 'd double_ops =
  d_mul :: "'d \<Rightarrow> 'd \<Rightarrow> 'd"
  d_add :: "'d \<Rightarrow> 'd \<Rightarrow> 'd"
  d_sub :: "'d \<Rightarrow> 'd \<Rightarrow> 'd"
  d_le :: "'d \<Rightarrow> 'd \<Rightarrow> bool"
  d_int :: "int \<Rightarrow> 'd"

definition real_ops :: "real double_ops" where
  "real_ops = \<lparr>d_mul = (*), d_add = (+), d_sub = (-), d_le = (\<le>), d_int = of_int\<rparr>"

text \<open>
  The expressions are built as C parses them: \<^verbatim>\<open>X*X+Y*Y <= 4\<close> is
  \<^verbatim>\<open>((X*X)+(Y*Y)) <= (double)4\<close>, \<^verbatim>\<open>Re_Z+x\<close> is \<^verbatim>\<open>((X*X)-(Y*Y))+x\<close> and
  \<^verbatim>\<open>Im_Z+y\<close> is \<^verbatim>\<open>((2*oX)*Y)+y\<close>.
\<close>

definition radius_test :: "'d double_ops \<Rightarrow> 'd \<Rightarrow> 'd \<Rightarrow> bool" where
  "radius_test ops X Y = d_le ops (d_add ops (d_mul ops X X) (d_mul ops Y Y)) (d_int ops 4)"

definition Re_Z_fp :: "'d double_ops \<Rightarrow> 'd \<Rightarrow> 'd \<Rightarrow> 'd" where
  "Re_Z_fp ops X Y = d_sub ops (d_mul ops X X) (d_mul ops Y Y)"

definition Im_Z_fp :: "'d double_ops \<Rightarrow> 'd \<Rightarrow> 'd \<Rightarrow> 'd" where
  "Im_Z_fp ops oX Y = d_mul ops (d_mul ops (d_int ops 2) oX) Y"

function iter_while_fp ::
  "'d double_ops \<Rightarrow> int \<Rightarrow> 'd \<Rightarrow> 'd \<Rightarrow> 'd \<Rightarrow> 'd \<Rightarrow> int \<Rightarrow> int" where
  "iter_while_fp ops cap p q X Y i =
     (if radius_test ops X Y then
        (if i + 1 < cap
         then iter_while_fp ops cap p q (d_add ops (Re_Z_fp ops X Y) p)
                (d_add ops (Im_Z_fp ops X Y) q) (i + 1)
         else i + 1)
      else i)"
  by pat_completeness auto
termination
  by (relation "measure (\<lambda>(ops, cap, p, q, X, Y, i). nat (cap - i))") auto

declare iter_while_fp.simps [simp del]

definition mandel_iterator_fp :: "'d double_ops \<Rightarrow> 'd \<Rightarrow> 'd \<Rightarrow> int" where
  "mandel_iterator_fp ops x y = iter_while_fp ops ipp x y x y 0"

text \<open>
  The iterates and the radius test over \<open>ops\<close>: \<open>mandel_orbit_fp ops x y k\<close> is the
  pair \<open>(X, Y)\<close> the loop holds after \<open>k\<close> rounds, and \<open>inside_fp ops z\<close> is the test
  of the loop as \<open>ops\<close> computes it.
\<close>

definition qstep_fp :: "'d double_ops \<Rightarrow> 'd \<Rightarrow> 'd \<Rightarrow> 'd \<times> 'd \<Rightarrow> 'd \<times> 'd" where
  "qstep_fp ops p q z =
     (d_add ops (Re_Z_fp ops (fst z) (snd z)) p, d_add ops (Im_Z_fp ops (fst z) (snd z)) q)"

definition orbit_fp :: "'d double_ops \<Rightarrow> 'd \<Rightarrow> 'd \<Rightarrow> 'd \<times> 'd \<Rightarrow> nat \<Rightarrow> 'd \<times> 'd" where
  "orbit_fp ops p q z k = (qstep_fp ops p q ^^ k) z"

definition inside_fp :: "'d double_ops \<Rightarrow> 'd \<times> 'd \<Rightarrow> bool" where
  "inside_fp ops z = radius_test ops (fst z) (snd z)"

definition mandel_orbit_fp :: "'d double_ops \<Rightarrow> 'd \<Rightarrow> 'd \<Rightarrow> nat \<Rightarrow> 'd \<times> 'd" where
  "mandel_orbit_fp ops x y k = orbit_fp ops x y (x, y) k"

section \<open>The viewport and its aspect correction\<close>

text \<open>
  The visible rectangle of the plane is held in the globals \<^verbatim>\<open>xs, xe, ys, ye\<close> (the
  bounds) and \<^verbatim>\<open>xu, yu\<close> (plane units per pixel). The program starts with
  \<^verbatim>\<open>double xs = -2, xe = 2; double ys = -2, ye = 2; double xu, yu;\<close>.
\<close>

record viewport =
  xs :: double
  xe :: double
  ys :: double
  ye :: double
  xu :: double
  yu :: double

definition initial_viewport :: viewport where
  "initial_viewport = \<lparr>xs = - 2, xe = 2, ys = - 2, ye = 2, xu = 0, yu = 0\<rparr>"

text \<open>
  The head of the main loop of \<^verbatim>\<open>fly\<close> recomputes the scales and corrects the aspect:
  \<^verbatim>\<open>
    xu = (xe-xs)/Xmax;
    yu = (ye-ys)/Ymax;
    if ( xu > yu ) { yu = xu; ye = yu*Ymax+ys; }
    else           { xu = yu; xe = xu*Xmax+xs; }
  \<close>
  The two macros are arguments here, so that the statements can speak of any resolution;
  \<open>fly_recompute\<close> is the step at the resolution the program is compiled for.
\<close>

definition recompute :: "int \<Rightarrow> int \<Rightarrow> 'a viewport_scheme \<Rightarrow> 'a viewport_scheme" where
  "recompute W H v =
     (let v1 = v\<lparr>xu := (xe v - xs v) / of_int W\<rparr>;
          v2 = v1\<lparr>yu := (ye v1 - ys v1) / of_int H\<rparr>
      in if xu v2 > yu v2
         then (let v3 = v2\<lparr>yu := xu v2\<rparr> in v3\<lparr>ye := yu v3 * of_int H + ys v3\<rparr>)
         else (let v3 = v2\<lparr>xu := yu v2\<rparr> in v3\<lparr>xe := xu v3 * of_int W + xs v3\<rparr>))"

definition fly_recompute :: "'a viewport_scheme \<Rightarrow> 'a viewport_scheme" where
  "fly_recompute v = recompute Xmax Ymax v"

section \<open>The display and the state of the program\<close>

text \<open>
  The program draws through four primitives of the graphics library: \<^verbatim>\<open>rectfill\<close>,
  \<^verbatim>\<open>putpixel\<close>, \<^verbatim>\<open>line\<close> and \<^verbatim>\<open>textprintf\<close>, always on the screen bitmap. A call is
  recorded with its integer arguments, the colour last; for \<^verbatim>\<open>textprintf\<close> the
  arguments kept are the position, the colour and the number that is printed.
\<close>

datatype gfx_call =
    Rectfill int int int int int
  | Putpixel int int int
  | Line int int int int int
  | Textprintf int int int int

text \<open>
  The state holds the globals that the rasterizer and the orbit tracer read or write,
  the pixels of the screen, and the list of display calls made so far.

  \<^item> \<^verbatim>\<open>iter_function\<close> is a function pointer; here it is a function value. The
    pointer to \<^verbatim>\<open>julia_iterator\<close> stands for \<open>julia_iterator cx cy\<close> at the values the
    two globals have while \<^verbatim>\<open>view\<close> runs, during which nothing assigns to them.
  \<^item> \<^verbatim>\<open>tact\<close> is \<^verbatim>\<open>volatile\<close> and incremented by the timer interrupt, so two reads
    may see different values. The field \<open>tact\<close> gives, for every \<open>n\<close>, the value that
    the \<open>n\<close>-th read of the variable sees, and \<open>reads\<close> counts the reads made so far.
    A run without cancellation is one where every read sees 0.
  \<^item> \<open>screen\<close> maps a pixel to the colour last written to it by \<^verbatim>\<open>rectfill\<close>. The
    library clips to the bitmap and stores 8-bit pixels; neither is part of the source
    and neither is modelled: the screen here is unbounded and keeps the colour as passed.
\<close>

record state = viewport +
  cx :: double
  cy :: double
  frag_size :: int
  step :: int
  over :: int
  orbit_pixel :: int
  pal_gradient :: int
  iter_function :: "double \<Rightarrow> double \<Rightarrow> int"
  tact :: "nat \<Rightarrow> int"
  reads :: nat
  screen :: "int \<Rightarrow> int \<Rightarrow> int"
  gfx :: "gfx_call list"

definition read_tact :: "state \<Rightarrow> int \<times> state" where
  "read_tact st = (tact st (reads st), st\<lparr>reads := Suc (reads st)\<rparr>)"

text \<open>
  \<^verbatim>\<open>rectfill( screen, x1, y1, x2, y2, c )\<close> paints the rectangle with both corners
  included, in one call. Every call of the program passes \<open>x1 \<le> x2\<close> and \<open>y1 \<le> y2\<close>.
\<close>

definition rectfill :: "int \<Rightarrow> int \<Rightarrow> int \<Rightarrow> int \<Rightarrow> int \<Rightarrow> state \<Rightarrow> state" where
  "rectfill x1 y1 x2 y2 c st =
     st\<lparr>screen := (\<lambda>px py. if x1 \<le> px \<and> px \<le> x2 \<and> y1 \<le> py \<and> py \<le> y2 then c
                            else screen st px py),
        gfx := gfx st @ [Rectfill x1 y1 x2 y2 c]\<rparr>"

section \<open>The adaptive rasterizer: \<^verbatim>\<open>recursor\<close> and \<^verbatim>\<open>view\<close>\<close>

text \<open>
  \<^verbatim>\<open>
  void recursor( int x, int y, int l )
  {
    double X = x, Y = y;
    if ( l == frag_size )
    {
      if ( over || x&((l<<1)-1) || y&((l<<1)-1) )
        rectfill( screen, x, y, x+l-1, y+l-1, iter_function( xs+X*xu, ys+Y*yu ) );
      return;
    }
    if ( tact ) return;
    l >>= 1;
    recursor( x,   y,   l );
    recursor( x+l, y,   l );
    recursor( x+l, y+l, l );
    recursor( x  , y+l, l );
  }
  \<close>
  The recursion ends only when the edge meets \<^verbatim>\<open>frag_size\<close> or the timer has ticked.
  Called with an edge that never meets \<^verbatim>\<open>frag_size\<close> while \<^verbatim>\<open>tact\<close> stays 0 it
  does not return, so the function is partial and the value \<open>None\<close> stands for a call
  that does not return.
\<close>

partial_function (option) recursor :: "int \<Rightarrow> int \<Rightarrow> int \<Rightarrow> state \<Rightarrow> state option" where
  "recursor x y l st =
     (let X = (of_int x :: double); Y = (of_int y :: double) in
      if l = frag_size st then
        Some (if over st \<noteq> 0 \<or> x AND (push_bit 1 l - 1) \<noteq> 0 \<or> y AND (push_bit 1 l - 1) \<noteq> 0
              then rectfill x y (x + l - 1) (y + l - 1)
                     (iter_function st (xs st + X * xu st) (ys st + Y * yu st)) st
              else st)
      else
        (case read_tact st of (t, st0) \<Rightarrow>
          if t \<noteq> 0 then Some st0
          else
            (let l' = drop_bit 1 l in
             do {
               st1 \<leftarrow> recursor x y l' st0;
               st2 \<leftarrow> recursor (x + l') y l' st1;
               st3 \<leftarrow> recursor (x + l') (y + l') l' st2;
               recursor x (y + l') l' st3
             })))"

text \<open>
  \<^verbatim>\<open>
  void view( int xxs, int yys, int xxe, int yye )
  {
    int x, y;
    over = 1;
    step = 0x10;
    for ( frag_size=step; frag_size>=1; frag_size>>=1, over=0 )
      for ( y=yys; y<yye; y+=step )
        for ( x=xxs; x<xxe; x+=step )
          recursor( x, y, step );
  }
  \<close>
  One function for each of the three loops, the innermost first. The loops read the
  globals \<^verbatim>\<open>step\<close> and \<^verbatim>\<open>frag_size\<close> on every round, so they too are partial.
\<close>

partial_function (option) view_x :: "int \<Rightarrow> int \<Rightarrow> int \<Rightarrow> state \<Rightarrow> state option" where
  "view_x x y xxe st =
     (if x < xxe then
        do { st' \<leftarrow> recursor x y (step st) st; view_x (x + step st') y xxe st' }
      else Some st)"

partial_function (option) view_y :: "int \<Rightarrow> int \<Rightarrow> int \<Rightarrow> int \<Rightarrow> state \<Rightarrow> state option" where
  "view_y y xxs xxe yye st =
     (if y < yye then
        do { st' \<leftarrow> view_x xxs y xxe st; view_y (y + step st') xxs xxe yye st' }
      else Some st)"

partial_function (option) view_frag :: "int \<Rightarrow> int \<Rightarrow> int \<Rightarrow> int \<Rightarrow> state \<Rightarrow> state option" where
  "view_frag xxs yys xxe yye st =
     (if frag_size st \<ge> 1 then
        do {
          st' \<leftarrow> view_y yys xxs xxe yye st;
          view_frag xxs yys xxe yye (st'\<lparr>frag_size := drop_bit 1 (frag_size st'), over := 0\<rparr>)
        }
      else Some st)"

definition view :: "int \<Rightarrow> int \<Rightarrow> int \<Rightarrow> int \<Rightarrow> state \<Rightarrow> state option" where
  "view xxs yys xxe yye st =
     (let st1 = st\<lparr>over := 1\<rparr>;
          st2 = st1\<lparr>step := 0x10\<rparr>;
          st3 = st2\<lparr>frag_size := step st2\<rparr>
      in view_frag xxs yys xxe yye st3)"

section \<open>The orbit tracer: \<^verbatim>\<open>orbit_iterator\<close>\<close>

text \<open>
  An argument of type \<^verbatim>\<open>double\<close> passed for an \<^verbatim>\<open>int\<close> parameter is truncated
  towards zero.
\<close>

definition d2i :: "double \<Rightarrow> int" where
  "d2i v = (if 0 \<le> v then \<lfloor>v\<rfloor> else \<lceil>v\<rceil>)"

text \<open>
  The drawing loop of \<^verbatim>\<open>orbit_iterator\<close>:
  \<^verbatim>\<open>
  while ( X*X+Y*Y <= 4 && ++i < orbit_iter_limit )
  {
    if ( pal_gradient ) col = (i<<8)/itr; else col = 0xFF;
    if ( orbit_pixel )
      putpixel( screen, xxs+(X-xs)/xu, yys+(Y-ys)/yu, col );
    else
      line( screen, xxs+(sX-xs)/xu, yys+(sY-ys)/yu, xxs+(X-xs)/xu, yys+(Y-ys)/yu, col );
    sX = X; sY = Y;
    oX = X; X = Re_Z+cx; Y = Im_Z+cy;
  }
  \<close>
  It returns the final counter and the calls it made, appended to \<open>out\<close>. The division
  is that of C, which truncates. The body runs only after the radius test has passed at
  the starting point, and then the priming loop has counted at least one step, so the
  divisor \<^verbatim>\<open>itr\<close> is not 0 where the division is reached.
\<close>

function orbit_draw ::
  "state \<Rightarrow> int \<Rightarrow> int \<Rightarrow> int \<Rightarrow> double \<Rightarrow> double \<Rightarrow> double \<Rightarrow> double \<Rightarrow> int \<Rightarrow> gfx_call list
     \<Rightarrow> int \<times> gfx_call list" where
  "orbit_draw st xxs yys itr X Y sX sY i out =
     (if X * X + Y * Y \<le> 4 then
        (if i + 1 < orbit_iter_limit then
           (let col = (if pal_gradient st \<noteq> 0 then push_bit 8 (i + 1) sdiv itr else 0xFF);
                call =
                  (if orbit_pixel st \<noteq> 0
                   then Putpixel (d2i (of_int xxs + (X - xs st) / xu st))
                                 (d2i (of_int yys + (Y - ys st) / yu st)) col
                   else Line (d2i (of_int xxs + (sX - xs st) / xu st))
                             (d2i (of_int yys + (sY - ys st) / yu st))
                             (d2i (of_int xxs + (X - xs st) / xu st))
                             (d2i (of_int yys + (Y - ys st) / yu st)) col)
            in orbit_draw st xxs yys itr (Re_Z X Y + cx st) (Im_Z X Y + cy st) X Y (i + 1)
                 (out @ [call]))
         else (i + 1, out))
      else (i, out))"
  by pat_completeness auto
termination
  by (relation "measure (\<lambda>(st, xxs, yys, itr, X, Y, sX, sY, i, out). nat (orbit_iter_limit - i))")
     auto

declare orbit_draw.simps [simp del]

text \<open>
  \<^verbatim>\<open>orbit_iterator\<close> clears the rectangle, runs the priming loop (the loop of the
  iterators with the cap \<^verbatim>\<open>orbit_iter_limit\<close>, started at \<open>(cx, cy)\<close>) to get
  \<^verbatim>\<open>itr\<close>, runs the drawing loop from the same point and prints the counter. The
  result is the list of its display calls, in order.
\<close>

definition orbit_iterator :: "int \<Rightarrow> int \<Rightarrow> int \<Rightarrow> int \<Rightarrow> state \<Rightarrow> gfx_call list" where
  "orbit_iterator xxs yys xxe yye st =
     (let itr = iter_while orbit_iter_limit (cx st) (cy st) (cx st) (cy st) 0;
          (i, drawn) = orbit_draw st xxs yys itr (cx st) (cy st) (cx st) (cy st) 0 []
      in [Rectfill xxs yys xxe yye 0] @ drawn @ [Textprintf 1 (yye - 8) 0xE0 i])"

text \<open>The colour argument of a display call.\<close>

fun call_colour :: "gfx_call \<Rightarrow> int" where
  "call_colour (Rectfill x1 y1 x2 y2 c) = c"
| "call_colour (Putpixel x y c) = c"
| "call_colour (Line x1 y1 x2 y2 c) = c"
| "call_colour (Textprintf x y c v) = c"

section \<open>The palette and its rotation\<close>

text \<open>
  A palette is an array of 256 entries with the channels \<^verbatim>\<open>r\<close>, \<^verbatim>\<open>g\<close> and \<^verbatim>\<open>b\<close>, each an
  \<^verbatim>\<open>unsigned char\<close>. It is a list here; the statements about it assume the length 256,
  so that every index the loops use is in range.
\<close>

record RGB =
  r :: "8 word"
  g :: "8 word"
  b :: "8 word"

type_synonym PALETTE = "RGB list"

text \<open>
  \<^verbatim>\<open>set_default_pal\<close> fills the table in four loops over 64 indices each; entry \<open>i\<close>
  gets the value below. The third band stores \<^verbatim>\<open>i-0xC0\<close>, which is negative, into an
  \<^verbatim>\<open>unsigned char\<close>.
\<close>

definition default_entry :: "int \<Rightarrow> RGB" where
  "default_entry i =
     (if i < 0x40 then \<lparr>r = word_of_int i, g = 0, b = 0\<rparr>
      else if i < 0x80 then \<lparr>r = 0x3F, g = word_of_int (i - 0x40), b = 0\<rparr>
      else if i < 0xC0 then \<lparr>r = 0x3F, g = 0x3F, b = word_of_int (i - 0xC0)\<rparr>
      else \<lparr>r = 0x3F, g = 0x3F, b = 0x3F\<rparr>)"

definition set_default_pal :: PALETTE where
  "set_default_pal = map (\<lambda>i. default_entry (int i)) [0..<0x100]"

text \<open>
  The inner loop of \<^verbatim>\<open>rot_forward_pal\<close>,
  \<^verbatim>\<open>for ( i=0xFF; i>0; i-- ) { pal[i].r = pal[i-1].r; ... }\<close>, started at \<open>i\<close>, and the
  inner loop of \<^verbatim>\<open>rot_backward_pal\<close>,
  \<^verbatim>\<open>for ( i=0; i<0xFF; i++ ) { pal[i].r = pal[i+1].r; ... }\<close>. The index stays between 0
  and 255 and is a natural number here.
\<close>

fun fwd_shift :: "nat \<Rightarrow> PALETTE \<Rightarrow> PALETTE" where
  "fwd_shift 0 pal = pal"
| "fwd_shift (Suc i) pal =
     fwd_shift i (pal[Suc i := \<lparr>r = r (pal ! i), g = g (pal ! i), b = b (pal ! i)\<rparr>])"

function bwd_shift :: "nat \<Rightarrow> PALETTE \<Rightarrow> PALETTE" where
  "bwd_shift i pal =
     (if i < 0xFF
      then bwd_shift (i + 1)
             (pal[i := \<lparr>r = r (pal ! (i + 1)), g = g (pal ! (i + 1)), b = b (pal ! (i + 1))\<rparr>])
      else pal)"
  by pat_completeness auto
termination
  by (relation "measure (\<lambda>(i, pal). 0xFF - i)") auto

declare bwd_shift.simps [simp del]

text \<open>
  Both functions keep one entry in the \<^verbatim>\<open>int\<close> variables \<^verbatim>\<open>pr, pg, pb\<close>. The body of
  the outer loop of \<^verbatim>\<open>rot_forward_pal\<close> shifts, stores the kept entry at index 0 and
  then reloads the three variables from index 255:
  \<^verbatim>\<open>pal[0].r = pr; ...; pr = pal[0xFF].r; ...\<close>.
  The body of the outer loop of \<^verbatim>\<open>rot_backward_pal\<close> shifts and stores the kept entry
  at index 255, \<^verbatim>\<open>pal[0xFF].r = pr; ...\<close>, and does not reload the variables: they keep
  what they were given before the loop, \<^verbatim>\<open>pr = pal[0].r\<close> and so on.

  The outer loops run once per timer tick until a key or a mouse button arrives. The
  argument \<open>n\<close> is the number of rounds the environment lets the loop make.
\<close>

type_synonym saved = "int \<times> int \<times> int"

definition save_entry :: "RGB \<Rightarrow> saved" where
  "save_entry e = (uint (r e), uint (g e), uint (b e))"

definition load_entry :: "saved \<Rightarrow> RGB" where
  "load_entry s = (case s of (pr, pg, pb) \<Rightarrow>
     \<lparr>r = word_of_int pr, g = word_of_int pg, b = word_of_int pb\<rparr>)"

definition rot_forward_body :: "saved \<times> PALETTE \<Rightarrow> saved \<times> PALETTE" where
  "rot_forward_body s = (case s of (p, pal) \<Rightarrow>
     (let pal1 = fwd_shift 0xFF pal;
          pal2 = pal1[0 := load_entry p]
      in (save_entry (pal2 ! 0xFF), pal2)))"

definition rot_forward_pal :: "nat \<Rightarrow> PALETTE \<Rightarrow> PALETTE" where
  "rot_forward_pal n pal = snd ((rot_forward_body ^^ n) (save_entry (pal ! 0xFF), pal))"

definition rot_backward_body :: "saved \<times> PALETTE \<Rightarrow> saved \<times> PALETTE" where
  "rot_backward_body s = (case s of (p, pal) \<Rightarrow>
     (let pal1 = bwd_shift 0 pal;
          pal2 = pal1[0xFF := load_entry p]
      in (p, pal2)))"

definition rot_backward_pal :: "nat \<Rightarrow> PALETTE \<Rightarrow> PALETTE" where
  "rot_backward_pal n pal = snd ((rot_backward_body ^^ n) (save_entry (pal ! 0), pal))"

section \<open>Notions used in the statements and proofs\<close>

subsection \<open>The skip rule, the colour of a pixel, and blocks on the grid\<close>

text \<open>
  \<open>paints ov l x y\<close> is the condition under which a terminal call fills its block,
  \<open>pixel_colour st x y\<close> is the colour an evaluation at pixel \<open>(x, y)\<close> gives, and
  \<open>terminal\<close> is the branch of \<^verbatim>\<open>recursor\<close> for \<^verbatim>\<open>l == frag_size\<close>.
\<close>

definition paints :: "int \<Rightarrow> int \<Rightarrow> int \<Rightarrow> int \<Rightarrow> bool" where
  "paints ov l x y = (ov \<noteq> 0 \<or> x AND (push_bit 1 l - 1) \<noteq> 0 \<or> y AND (push_bit 1 l - 1) \<noteq> 0)"

definition pixel_colour :: "state \<Rightarrow> int \<Rightarrow> int \<Rightarrow> int" where
  "pixel_colour st x y = iter_function st (xs st + of_int x * xu st) (ys st + of_int y * yu st)"

definition terminal :: "int \<Rightarrow> int \<Rightarrow> state \<Rightarrow> state" where
  "terminal x y st =
     (if paints (over st) (frag_size st) x y
      then rectfill x y (x + frag_size st - 1) (y + frag_size st - 1) (pixel_colour st x y) st
      else st)"

text \<open>
  \<open>recursor_depth k\<close> is \<^verbatim>\<open>recursor\<close> for a call whose edge is \<open>k\<close> halvings above
  \<^verbatim>\<open>frag_size\<close>, as a total function; \<open>recursor_levels\<close> below shows that the two agree.
\<close>

fun recursor_depth :: "nat \<Rightarrow> int \<Rightarrow> int \<Rightarrow> state \<Rightarrow> state" where
  "recursor_depth 0 x y st = terminal x y st"
| "recursor_depth (Suc k) x y st =
     (case read_tact st of (t, st0) \<Rightarrow>
        if t \<noteq> 0 then st0
        else
          (let l' = frag_size st * 2 ^ k;
               st1 = recursor_depth k x y st0;
               st2 = recursor_depth k (x + l') y st1;
               st3 = recursor_depth k (x + l') (y + l') st2
           in recursor_depth k x (y + l') st3))"

text \<open>What the rasterizer reads and never writes while a pass runs.\<close>

definition env :: "state \<Rightarrow> (double \<times> double \<times> double \<times> double) \<times> (int \<times> int \<times> int) \<times>
    (double \<Rightarrow> double \<Rightarrow> int) \<times> (nat \<Rightarrow> int)" where
  "env st = ((xs st, ys st, xu st, yu st), (frag_size st, step st, over st),
             iter_function st, tact st)"

text \<open>
  \<open>orig f x0 px\<close> is the origin of the block of edge \<open>f\<close> that holds the coordinate
  \<open>px\<close>, on the grid that starts at \<open>x0\<close>. \<open>pass_colour\<close> is the colour of a pixel
  once the pass at the current edge has dealt with its block, and \<open>block_step\<close> is the
  same with the flag, the edge and the colour before as arguments.
\<close>

definition orig :: "int \<Rightarrow> int \<Rightarrow> int \<Rightarrow> int" where
  "orig f x0 px = px - (px - x0) mod f"

definition pass_colour :: "int \<Rightarrow> int \<Rightarrow> state \<Rightarrow> int \<Rightarrow> int \<Rightarrow> int" where
  "pass_colour x0 y0 st px py =
     (if paints (over st) (frag_size st) (orig (frag_size st) x0 px) (orig (frag_size st) y0 py)
      then pixel_colour st (orig (frag_size st) x0 px) (orig (frag_size st) y0 py)
      else screen st px py)"

definition block_step :: "state \<Rightarrow> int \<Rightarrow> int \<Rightarrow> int \<Rightarrow> int \<Rightarrow> int \<Rightarrow> int \<Rightarrow> int \<Rightarrow> int" where
  "block_step st x0 y0 px py ov f c =
     (if paints ov f (orig f x0 px) (orig f y0 py)
      then pixel_colour st (orig f x0 px) (orig f y0 py) else c)"

text \<open>
  \<open>after_passes st x0 y0 px py ov m c\<close> is the colour of the pixel after the passes
  with the edges \<open>2 ^ m\<close> down to 1, the first of them run with the flag \<open>ov\<close> and the
  others with 0, when the pixel had the colour \<open>c\<close> before.
\<close>

fun after_passes :: "state \<Rightarrow> int \<Rightarrow> int \<Rightarrow> int \<Rightarrow> int \<Rightarrow> int \<Rightarrow> nat \<Rightarrow> int \<Rightarrow> int" where
  "after_passes st x0 y0 px py ov 0 c = block_step st x0 y0 px py ov 1 c"
| "after_passes st x0 y0 px py ov (Suc m) c =
     after_passes st x0 y0 px py 0 m (block_step st x0 y0 px py ov (2 ^ Suc m) c)"

text \<open>Reading a pixel back from the result of a run.\<close>

definition read_back :: "int \<Rightarrow> int \<Rightarrow> state option \<Rightarrow> int option" where
  "read_back px py res = map_option (\<lambda>s. screen s px py) res"

text \<open>
  The first round of the outermost loop of \<^verbatim>\<open>view\<close>, with the assignments that
  precede it, and a later round at the edge \<open>f\<close>.
\<close>

definition first_pass :: "int \<Rightarrow> int \<Rightarrow> int \<Rightarrow> int \<Rightarrow> state \<Rightarrow> state option" where
  "first_pass xxs yys xxe yye st =
     view_y yys xxs xxe yye (st\<lparr>over := 1, step := 0x10, frag_size := 0x10\<rparr>)"

definition next_pass :: "int \<Rightarrow> int \<Rightarrow> int \<Rightarrow> int \<Rightarrow> int \<Rightarrow> state \<Rightarrow> state option" where
  "next_pass f xxs yys xxe yye st = view_y yys xxs xxe yye (st\<lparr>frag_size := f, over := 0\<rparr>)"

text \<open>
  The display calls one pass makes. \<open>call_x\<close> and \<open>call_y\<close> are the first two
  coordinates of a call. \<open>pass_fill xxs yys xxe yye st first f c\<close> says that the call
  \<open>c\<close> is the fill of one block of the pass at the edge \<open>f\<close> over the rectangle from
  \<open>(xxs, yys)\<close> to \<open>(xxe, yye)\<close>: it is a \<^verbatim>\<open>rectfill\<close> of a square of edge \<open>f\<close> whose
  origin \<open>(x1, y1)\<close> lies on the grid of step \<open>f\<close> that starts at \<open>(xxs, yys)\<close>, in a
  tile of edge 16 that starts before \<open>xxe\<close> and before \<open>yye\<close>, in the colour of the
  point the origin maps to, and, unless \<open>first\<close> is set, \<open>x1\<close> or \<open>y1\<close> is not
  divisible by \<open>2 * f\<close>. \<open>grid_fill\<close> is the same for the blocks of the grid that
  starts at \<open>(x0, y0)\<close>, with the edge and the flag read from the state and without the
  bounds.
\<close>

fun call_x :: "gfx_call \<Rightarrow> int" where
  "call_x (Rectfill x1 y1 x2 y2 c) = x1"
| "call_x (Putpixel x y c) = x"
| "call_x (Line x1 y1 x2 y2 c) = x1"
| "call_x (Textprintf x y c v) = x"

fun call_y :: "gfx_call \<Rightarrow> int" where
  "call_y (Rectfill x1 y1 x2 y2 c) = y1"
| "call_y (Putpixel x y c) = y"
| "call_y (Line x1 y1 x2 y2 c) = y1"
| "call_y (Textprintf x y c v) = y"

fun grid_fill :: "int \<Rightarrow> int \<Rightarrow> state \<Rightarrow> gfx_call \<Rightarrow> bool" where
  "grid_fill x0 y0 st (Rectfill x1 y1 x2 y2 c) =
     (frag_size st dvd (x1 - x0) \<and> frag_size st dvd (y1 - y0)
      \<and> x2 = x1 + frag_size st - 1 \<and> y2 = y1 + frag_size st - 1
      \<and> c = pixel_colour st x1 y1 \<and> paints (over st) (frag_size st) x1 y1)"
| "grid_fill x0 y0 st (Putpixel x y c) = False"
| "grid_fill x0 y0 st (Line x1 y1 x2 y2 c) = False"
| "grid_fill x0 y0 st (Textprintf x y c v) = False"

fun pass_fill ::
  "int \<Rightarrow> int \<Rightarrow> int \<Rightarrow> int \<Rightarrow> state \<Rightarrow> bool \<Rightarrow> int \<Rightarrow> gfx_call \<Rightarrow> bool" where
  "pass_fill xxs yys xxe yye st first f (Rectfill x1 y1 x2 y2 c) =
     (xxs \<le> x1 \<and> f dvd (x1 - xxs) \<and> orig 16 xxs x1 < xxe
      \<and> yys \<le> y1 \<and> f dvd (y1 - yys) \<and> orig 16 yys y1 < yye
      \<and> x2 = x1 + f - 1 \<and> y2 = y1 + f - 1 \<and> c = pixel_colour st x1 y1
      \<and> (first \<or> \<not> (2 * f) dvd x1 \<or> \<not> (2 * f) dvd y1))"
| "pass_fill xxs yys xxe yye st first f (Putpixel x y c) = False"
| "pass_fill xxs yys xxe yye st first f (Line x1 y1 x2 y2 c) = False"
| "pass_fill xxs yys xxe yye st first f (Textprintf x y c v) = False"

text \<open>
  A block is an origin, an edge and a colour. \<open>fills x0 y0 st st'\<close> says that \<open>st'\<close>
  comes from \<open>st\<close> by a sequence of fills, each of one whole block of the grid that
  starts at \<open>(x0, y0)\<close>, with an edge of 16, 8, 4, 2 or 1: the calls recorded are
  exactly these fills and the screen is what they paint, one after the other.
\<close>

type_synonym block = "int \<times> int \<times> int \<times> int"

definition block_call :: "block \<Rightarrow> gfx_call" where
  "block_call blk = (case blk of (x, y, l, c) \<Rightarrow> Rectfill x y (x + l - 1) (y + l - 1) c)"

definition fill_block :: "(int \<Rightarrow> int \<Rightarrow> int) \<Rightarrow> block \<Rightarrow> (int \<Rightarrow> int \<Rightarrow> int)" where
  "fill_block scr blk = (case blk of (x, y, l, c) \<Rightarrow>
     (\<lambda>px py. if x \<le> px \<and> px \<le> x + l - 1 \<and> y \<le> py \<and> py \<le> y + l - 1 then c else scr px py))"

definition grid_block :: "int \<Rightarrow> int \<Rightarrow> block \<Rightarrow> bool" where
  "grid_block x0 y0 blk = (case blk of (x, y, l, c) \<Rightarrow>
     l \<in> {16, 8, 4, 2, 1} \<and> l dvd (x - x0) \<and> l dvd (y - y0) \<and> x0 \<le> x \<and> y0 \<le> y)"

definition fills :: "int \<Rightarrow> int \<Rightarrow> state \<Rightarrow> state \<Rightarrow> bool" where
  "fills x0 y0 st st' =
     (\<exists>bs. gfx st' = gfx st @ map block_call bs
         \<and> screen st' = foldl fill_block (screen st) bs
         \<and> list_all (grid_block x0 y0) bs)"

subsection \<open>Rotation of a list by one place to the right\<close>

definition rotr :: "'a list \<Rightarrow> 'a list" where
  "rotr q = last q # butlast q"

subsection \<open>States for the concrete runs\<close>

text \<open>
  \<open>example_state\<close> maps pixel \<open>(x, y)\<close> to the point \<open>(x, y)\<close> of the plane,
  evaluates with \<^verbatim>\<open>mandel_iterator\<close>, has a black screen, and its timer stays at 0.
  \<open>probe_state\<close> is the state of the Julia probe (bounds from -2 to 2 over
  \<^verbatim>\<open>probe_size\<close> pixels) with the gradient switched on and the parameter
  \<open>(1/2, 1/2)\<close>.
\<close>

definition example_state :: state where
  "example_state =
     \<lparr>xs = 0, xe = 4, ys = 0, ye = 4, xu = 1, yu = 1, cx = 0, cy = 0,
      frag_size = 0, step = 0, over = 0, orbit_pixel = 1, pal_gradient = 0,
      iter_function = mandel_iterator, tact = (\<lambda>_. 0), reads = 0,
      screen = (\<lambda>_ _. 0), gfx = []\<rparr>"

definition probe_state :: state where
  "probe_state =
     \<lparr>xs = - 2, xe = 2, ys = - 2, ye = 2, xu = 4 / 384, yu = 4 / 384, cx = 1 / 2, cy = 1 / 2,
      frag_size = 0, step = 16, over = 0, orbit_pixel = 1, pal_gradient = 1,
      iter_function = julia_iterator (1 / 2) (1 / 2), tact = (\<lambda>_. 0), reads = 0,
      screen = (\<lambda>_ _. 0), gfx = []\<rparr>"

section \<open>Lemmas and theorems\<close>


subsection \<open>The escape-time iterators\<close>

lemma orbit_0: "orbit ca cb z 0 = z"
  by (simp add: orbit_def)

lemma orbit_Suc_shift: "orbit ca cb z (Suc k) = orbit ca cb (qstep ca cb z) k"
  by (simp add: orbit_def funpow_swap1)

lemma iter_while_lower: "i \<le> iter_while cap ca cb X Y i"
proof (induction cap ca cb X Y i rule: iter_while.induct)
  case (1 cap ca cb X Y i)
  show ?case
  proof (cases "X * X + Y * Y \<le> 4 \<and> i + 1 < cap")
    case True
    with 1 have "i + 1 \<le> iter_while cap ca cb (Re_Z X Y + ca) (Im_Z X Y + cb) (i + 1)"
      by simp
    with True show ?thesis
      by (subst iter_while.simps) simp
  next
    case False
    then show ?thesis
      by (subst iter_while.simps) auto
  qed
qed


lemma iter_while_escape:
  "\<forall>j<k. inside (orbit ca cb (X, Y) j) \<Longrightarrow> \<not> inside (orbit ca cb (X, Y) k) \<Longrightarrow>
   i + int k < cap \<Longrightarrow> iter_while cap ca cb X Y i = i + int k"
proof (induction k arbitrary: X Y i)
  case 0
  then have "\<not> X * X + Y * Y \<le> 4"
    by (simp add: orbit_0 inside_def)
  then show ?case
    by (subst iter_while.simps) simp
next
  case (Suc k)
  have in0: "X * X + Y * Y \<le> 4"
    using Suc.prems(1) [rule_format, of 0] by (simp add: orbit_0 inside_def)
  have nxt: "qstep ca cb (X, Y) = (Re_Z X Y + ca, Im_Z X Y + cb)"
    by (simp add: qstep_def)
  have a1: "\<forall>j<k. inside (orbit ca cb (Re_Z X Y + ca, Im_Z X Y + cb) j)"
    using Suc.prems(1) by (auto simp: orbit_Suc_shift [symmetric] nxt [symmetric])
  have a2: "\<not> inside (orbit ca cb (Re_Z X Y + ca, Im_Z X Y + cb) k)"
    using Suc.prems(2) by (simp add: orbit_Suc_shift nxt)
  have a3: "(i + 1) + int k < cap"
    using Suc.prems(3) by simp
  have "iter_while cap ca cb (Re_Z X Y + ca) (Im_Z X Y + cb) (i + 1) = (i + 1) + int k"
    by (rule Suc.IH [OF a1 a2 a3])
  moreover have "i + 1 < cap"
    using Suc.prems(3) by simp
  ultimately show ?case
    using in0 by (subst iter_while.simps) simp
qed

lemma iter_while_saturate:
  "i < cap \<Longrightarrow> \<forall>j. i + int j < cap \<longrightarrow> inside (orbit ca cb (X, Y) j) \<Longrightarrow>
   iter_while cap ca cb X Y i = cap"
proof (induction cap ca cb X Y i rule: iter_while.induct)
  case (1 cap ca cb X Y i)
  have in0: "X * X + Y * Y \<le> 4"
    using "1.prems"(2) [rule_format, of 0] "1.prems"(1) by (simp add: orbit_0 inside_def)
  show ?case
  proof (cases "i + 1 < cap")
    case True
    have nxt: "qstep ca cb (X, Y) = (Re_Z X Y + ca, Im_Z X Y + cb)"
      by (simp add: qstep_def)
    have "\<forall>j. (i + 1) + int j < cap \<longrightarrow> inside (orbit ca cb (Re_Z X Y + ca, Im_Z X Y + cb) j)"
    proof (intro allI impI)
      fix j assume "(i + 1) + int j < cap"
      then have "i + int (Suc j) < cap" by simp
      then have "inside (orbit ca cb (X, Y) (Suc j))"
        using "1.prems"(2) by blast
      then show "inside (orbit ca cb (Re_Z X Y + ca, Im_Z X Y + cb) j)"
        by (simp add: orbit_Suc_shift nxt)
    qed
    with 1 in0 True
    have "iter_while cap ca cb (Re_Z X Y + ca) (Im_Z X Y + cb) (i + 1) = cap"
      by simp
    with in0 True show ?thesis
      by (subst iter_while.simps) simp
  next
    case False
    with "1.prems"(1) in0 show ?thesis
      by (subst iter_while.simps) simp
  qed
qed

lemma orbit_origin: "orbit 0 0 (0, 0) k = (0, 0)"
  by (induction k) (simp_all add: orbit_def qstep_def Re_Z_def Im_Z_def)

text \<open>The loop over an arbitrary arithmetic: where it stops.\<close>

lemma orbit_fp_0: "orbit_fp ops p q z 0 = z"
  by (simp add: orbit_fp_def)

lemma orbit_fp_Suc_shift: "orbit_fp ops p q z (Suc k) = orbit_fp ops p q (qstep_fp ops p q z) k"
  by (simp add: orbit_fp_def funpow_swap1)

lemma iter_while_fp_escape:
  "\<forall>j<k. inside_fp ops (orbit_fp ops p q (X, Y) j) \<Longrightarrow>
   \<not> inside_fp ops (orbit_fp ops p q (X, Y) k) \<Longrightarrow>
   i + int k < cap \<Longrightarrow> iter_while_fp ops cap p q X Y i = i + int k"
proof (induction k arbitrary: X Y i)
  case 0
  then have "\<not> radius_test ops X Y"
    by (simp add: orbit_fp_0 inside_fp_def)
  then show ?case
    by (subst iter_while_fp.simps) simp
next
  case (Suc k)
  let ?X = "d_add ops (Re_Z_fp ops X Y) p"
  let ?Y = "d_add ops (Im_Z_fp ops X Y) q"
  have in0: "radius_test ops X Y"
    using Suc.prems(1) [rule_format, of 0] by (simp add: orbit_fp_0 inside_fp_def)
  have nxt: "qstep_fp ops p q (X, Y) = (?X, ?Y)"
    by (simp add: qstep_fp_def)
  have a1: "\<forall>j<k. inside_fp ops (orbit_fp ops p q (?X, ?Y) j)"
    using Suc.prems(1) by (auto simp: orbit_fp_Suc_shift [symmetric] nxt [symmetric])
  have a2: "\<not> inside_fp ops (orbit_fp ops p q (?X, ?Y) k)"
    using Suc.prems(2) by (simp add: orbit_fp_Suc_shift nxt)
  have a3: "(i + 1) + int k < cap"
    using Suc.prems(3) by simp
  have "iter_while_fp ops cap p q ?X ?Y (i + 1) = (i + 1) + int k"
    by (rule Suc.IH [OF a1 a2 a3])
  moreover have "i + 1 < cap"
    using Suc.prems(3) by simp
  ultimately show ?case
    using in0 by (subst iter_while_fp.simps) simp
qed

lemma iter_while_fp_real: "iter_while_fp real_ops cap p q X Y i = iter_while cap p q X Y i"
proof (induction cap p q X Y i rule: iter_while.induct)
  case (1 cap p q X Y i)
  have t: "radius_test real_ops X Y = (X * X + Y * Y \<le> 4)"
    by (simp add: radius_test_def real_ops_def)
  have n: "d_add real_ops (Re_Z_fp real_ops X Y) p = Re_Z X Y + p"
    "d_add real_ops (Im_Z_fp real_ops X Y) q = Im_Z X Y + q"
    by (simp_all add: Re_Z_fp_def Im_Z_fp_def Re_Z_def Im_Z_def real_ops_def)
  show ?case
  proof (cases "X * X + Y * Y \<le> 4 \<and> i + 1 < cap")
    case True
    then have "iter_while_fp real_ops cap p q (Re_Z X Y + p) (Im_Z X Y + q) (i + 1)
        = iter_while cap p q (Re_Z X Y + p) (Im_Z X Y + q) (i + 1)"
      using 1 by simp
    then show ?thesis
      using True
      by (subst iter_while_fp.simps, subst iter_while.simps) (simp add: t n)
  next
    case False
    then show ?thesis
      by (subst iter_while_fp.simps, subst iter_while.simps) (auto simp: t)
  qed
qed

lemma mandel_iterator_fp_real: "mandel_iterator_fp real_ops x y = mandel_iterator x y"
  by (simp add: mandel_iterator_fp_def mandel_iterator_def iter_while_fp_real)

text \<open>
  Claim C3, as the code has it. The statement is about the loop over any arithmetic
  \<open>ops\<close>, so it holds of the floating-point arithmetic of the machine, with its
  rounding, as it does of the real numbers. Counting the starting point as iterate 0,
  the Mandelbrot iterator returns the index of the first iterate at which the radius
  test of the loop, \<^verbatim>\<open>X*X+Y*Y <= 4\<close> as the program computes it, fails, as long as
  that index is below the cap. A point at which the computed test fails at the start
  therefore yields 0. Over the real numbers the loop is \<open>mandel_iterator\<close>, and the
  point \<open>(2, 0)\<close>, which lies on the circle and leaves it with the first update, yields
  1; the values of that run are 4, 6, 0 and 36, which binary floating point computes
  without rounding.
\<close>

theorem mandel_iterator_first_escape:
  "(int k < ipp \<and> (\<forall>j<k. inside_fp ops (mandel_orbit_fp ops x y j))
      \<and> \<not> inside_fp ops (mandel_orbit_fp ops x y k)
      \<longrightarrow> mandel_iterator_fp ops x y = int k)
   \<and> (\<not> radius_test ops x y \<longrightarrow> mandel_iterator_fp ops x y = 0)
   \<and> mandel_iterator_fp real_ops u v = mandel_iterator u v
   \<and> mandel_iterator 2 0 = 1"
proof (intro conjI impI)
  assume h: "int k < ipp \<and> (\<forall>j<k. inside_fp ops (mandel_orbit_fp ops x y j))
      \<and> \<not> inside_fp ops (mandel_orbit_fp ops x y k)"
  then have "iter_while_fp ops ipp x y x y 0 = 0 + int k"
    by (intro iter_while_fp_escape) (simp_all add: mandel_orbit_fp_def)
  then show "mandel_iterator_fp ops x y = int k"
    by (simp add: mandel_iterator_fp_def)
next
  assume "\<not> radius_test ops x y"
  then show "mandel_iterator_fp ops x y = 0"
    by (simp add: mandel_iterator_fp_def iter_while_fp.simps)
next
  show "mandel_iterator_fp real_ops u v = mandel_iterator u v"
    by (rule mandel_iterator_fp_real)
next
  show "mandel_iterator 2 0 = 1"
    by (simp add: mandel_iterator_def iter_while.simps Re_Z_def Im_Z_def ipp_def)
qed

text \<open>
  The theorem over the real numbers, at \<open>(2, 0)\<close>, which stops at iterate 1, and at
  \<open>(3, 0)\<close>, where the test fails at the start.
\<close>

theorem mandel_iterator_first_escape_witness:
  "int 1 < ipp \<and> inside_fp real_ops (mandel_orbit_fp real_ops 2 0 0)
   \<and> \<not> inside_fp real_ops (mandel_orbit_fp real_ops 2 0 1)
   \<and> mandel_iterator_fp real_ops 2 0 = int 1
   \<and> \<not> radius_test real_ops 3 0 \<and> mandel_iterator_fp real_ops 3 0 = 0
   \<and> mandel_iterator 3 0 = 0"
proof -
  have o0: "inside_fp real_ops (mandel_orbit_fp real_ops 2 0 0)"
    by (simp add: mandel_orbit_fp_def orbit_fp_def inside_fp_def radius_test_def real_ops_def)
  have o1: "\<not> inside_fp real_ops (mandel_orbit_fp real_ops 2 0 1)"
    by (simp add: mandel_orbit_fp_def orbit_fp_def inside_fp_def radius_test_def qstep_fp_def
        Re_Z_fp_def Im_Z_fp_def real_ops_def)
  have c: "int 1 < ipp"
    by (simp add: ipp_def)
  have t3: "\<not> radius_test real_ops 3 0"
    by (simp add: radius_test_def real_ops_def)
  have "\<forall>j<1. inside_fp real_ops (mandel_orbit_fp real_ops 2 0 j)"
    using o0 by simp
  with c o1 have r2: "mandel_iterator_fp real_ops 2 0 = int 1"
    using mandel_iterator_first_escape [of 1 real_ops 2 0] by blast
  have r3: "mandel_iterator_fp real_ops 3 0 = 0"
    using mandel_iterator_first_escape [of 0 real_ops 3 0] t3 by blast
  have r3': "mandel_iterator 3 0 = 0"
    using mandel_iterator_first_escape [of 0 real_ops 3 0 3 0] r3 by simp
  show ?thesis
    using o0 o1 c t3 r2 r3 r3' by simp
qed

text \<open>
  Claim C3 as it is worded says that every point outside the radius yields 1. The point
  \<open>(3, 0)\<close> lies outside, the loop body never runs for it, and the result is 0.
\<close>

theorem mandel_iterator_outside_counterexample:
  "(3::real) * 3 + 0 * 0 > 4 \<and> mandel_iterator 3 0 \<noteq> 1"
  by (simp add: mandel_iterator_def iter_while.simps)





subsection \<open>The aspect correction\<close>

text \<open>
  Claim C5. For a positive resolution \<open>W\<close> x \<open>H\<close> and any bounds, after the step the two
  scales are equal, their common value is the larger of the two raw scales, and the
  maximum bound of the other axis is the scale times the resolution plus the minimum
  bound: \<^verbatim>\<open>ye\<close> when the raw X scale is the larger one, \<^verbatim>\<open>xe\<close> otherwise. The
  remaining bounds keep their values. The equality of the scales comes from the
  assignments \<^verbatim>\<open>yu = xu\<close> and \<^verbatim>\<open>xu = yu\<close>, not from arithmetic.
\<close>

theorem recompute_square_pixels:
  "0 < W \<Longrightarrow> 0 < H \<Longrightarrow>
   (let rx = (xe v - xs v) / of_int W;
        ry = (ye v - ys v) / of_int H;
        v' = recompute W H v
    in xu v' = yu v' \<and> xu v' = max rx ry
       \<and> (rx > ry \<longrightarrow> ye v' = rx * of_int H + ys v \<and> xe v' = xe v)
       \<and> (\<not> rx > ry \<longrightarrow> xe v' = ry * of_int W + xs v \<and> ye v' = ye v)
       \<and> xs v' = xs v \<and> ys v' = ys v)"
proof -
  let ?rx = "(xe v - xs v) / of_int W"
  let ?ry = "(ye v - ys v) / of_int H"
  show ?thesis
  proof (cases "?rx > ?ry")
    case True
    then show ?thesis
      by (simp add: recompute_def Let_def max_def)
  next
    case False
    then show ?thesis
      by (simp add: recompute_def Let_def max_def)
  qed
qed

theorem recompute_square_pixels_witness:
  "(0::int) < 1024 \<and> (0::int) < 768
   \<and> xu (recompute 1024 768 \<lparr>xs = - 2, xe = 2, ys = - 1, ye = 1, xu = 0, yu = 0\<rparr>)
       = yu (recompute 1024 768 \<lparr>xs = - 2, xe = 2, ys = - 1, ye = 1, xu = 0, yu = 0\<rparr>)
   \<and> ye (recompute 1024 768 \<lparr>xs = - 2, xe = 2, ys = - 1, ye = 1, xu = 0, yu = 0\<rparr>) = 2
   \<and> xe (recompute 1024 768 \<lparr>xs = - 2, xe = 2, ys = - 1, ye = 1, xu = 0, yu = 0\<rparr>) = 2"
proof -
  have w: "(0::int) < 1024" and h: "(0::int) < 768"
    by simp_all
  show ?thesis
    using recompute_square_pixels
      [OF w h, of "\<lparr>xs = - 2, xe = 2, ys = - 1, ye = 1, xu = 0, yu = 0\<rparr>"]
    by (simp add: Let_def)
qed

text \<open>
  Claim C6, as the code has it. From the bounds the program starts with, at 1024 x 768,
  the raw X scale 4/1024 is not larger than the raw Y scale 4/768, so the step takes its
  second branch: both scales become 4/768, and it is \<^verbatim>\<open>xe\<close> that is recomputed, as the
  scale times 1024 plus \<^verbatim>\<open>xs\<close>, which is 10/3 in exact arithmetic. The bounds
  \<^verbatim>\<open>xs\<close>, \<^verbatim>\<open>ys\<close> and \<^verbatim>\<open>ye\<close> keep their values.
\<close>

theorem fly_recompute_initial:
  "xu (fly_recompute initial_viewport) = yu (fly_recompute initial_viewport)
   \<and> yu (fly_recompute initial_viewport) = 4 / 768
   \<and> xe (fly_recompute initial_viewport)
       = xu (fly_recompute initial_viewport) * 1024 + xs (fly_recompute initial_viewport)
   \<and> xe (fly_recompute initial_viewport) = 10 / 3
   \<and> xs (fly_recompute initial_viewport) = - 2
   \<and> ys (fly_recompute initial_viewport) = - 2
   \<and> ye (fly_recompute initial_viewport) = 2"
proof -
  have raw: "\<not> ((2 - (- 2)) / of_int Xmax > ((2::real) - (- 2)) / of_int Ymax)"
    by (simp add: Xmax_def Ymax_def Xres_def Yres_def)
  have "fly_recompute initial_viewport
        = \<lparr>xs = - 2, xe = 4 / 768 * 1024 + (- 2), ys = - 2, ye = 2, xu = 4 / 768, yu = 4 / 768\<rparr>"
    using raw
    by (simp add: fly_recompute_def recompute_def initial_viewport_def Let_def
        Xmax_def Ymax_def Xres_def Yres_def)
  then show ?thesis
    by simp
qed

text \<open>
  Claim C6 as it is worded has \<^verbatim>\<open>ye\<close> adjusted and the other three bounds unchanged.
  On the code \<^verbatim>\<open>ye\<close> keeps the value 2 and \<^verbatim>\<open>xe\<close> does not.
\<close>

theorem fly_recompute_initial_counterexample:
  "ye (fly_recompute initial_viewport) = ye initial_viewport
   \<and> xe (fly_recompute initial_viewport) \<noteq> xe initial_viewport"
  by (simp add: fly_recompute_def recompute_def initial_viewport_def Let_def
      Xmax_def Ymax_def Xres_def Yres_def)


subsection \<open>The rasterizer: a call at a known depth returns\<close>

text \<open>
  For an edge that is a power of two, the mask \<^verbatim>\<open>(l<<1)-1\<close> tests divisibility by
  twice the edge.
\<close>

lemma and_mask_dvd: "(x AND (push_bit 1 (2 ^ m) - 1) = 0) = ((2 * 2 ^ m) dvd (x::int))"
proof -
  have "push_bit 1 ((2::int) ^ m) - 1 = mask (Suc m)"
    by (simp add: mask_eq_exp_minus_1 push_bit_eq_mult)
  then have "x AND (push_bit 1 (2 ^ m) - 1) = x mod 2 ^ Suc m"
    by (simp add: take_bit_eq_mask [symmetric] take_bit_eq_mod)
  then show ?thesis
    by (simp add: dvd_eq_mod_eq_0)
qed

lemma paints_dvd:
  "paints ov (2 ^ m) x y = (ov \<noteq> 0 \<or> \<not> (2 * 2 ^ m) dvd x \<or> \<not> (2 * 2 ^ m) dvd y)"
  by (simp only: paints_def and_mask_dvd)

lemma recursor_terminal: "recursor x y (frag_size st) st = Some (terminal x y st)"
  by (subst recursor.simps) (simp add: terminal_def paints_def pixel_colour_def Let_def)

lemma env_rectfill: "env (rectfill x1 y1 x2 y2 c st) = env st"
  by (simp add: env_def rectfill_def)

lemma env_terminal: "env (terminal x y st) = env st"
  by (simp add: terminal_def env_rectfill)

lemma env_read_tact: "env (snd (read_tact st)) = env st"
  by (simp add: env_def read_tact_def)

lemma env_recursor_depth: "env (recursor_depth k x y st) = env st"
proof (induction k arbitrary: x y st)
  case 0
  show ?case by (simp add: env_terminal)
next
  case (Suc k)
  have "env (st\<lparr>reads := Suc (reads st)\<rparr>) = env st"
    by (simp add: env_def)
  then show ?case
    by (simp add: read_tact_def Let_def Suc.IH)
qed

lemma env_frag_size: "env s = env t \<Longrightarrow> frag_size s = frag_size t"
  by (simp add: env_def)

lemma env_step: "env s = env t \<Longrightarrow> step s = step t"
  by (simp add: env_def)

lemma env_over: "env s = env t \<Longrightarrow> over s = over t"
  by (simp add: env_def)

lemma env_tact: "env s = env t \<Longrightarrow> tact s = tact t"
  by (simp add: env_def)

lemma env_pixel_colour: "env s = env t \<Longrightarrow> pixel_colour s = pixel_colour t"
  by (simp add: env_def pixel_colour_def fun_eq_iff)

text \<open>A call at edge \<open>frag_size * 2 ^ k\<close> returns, whatever the timer does.\<close>

lemma recursor_levels:
  "0 < frag_size st \<Longrightarrow> recursor x y (frag_size st * 2 ^ k) st = Some (recursor_depth k x y st)"
proof (induction k arbitrary: x y st)
  case 0
  show ?case
    by (simp add: recursor_terminal)
next
  case (Suc k)
  let ?f = "frag_size st"
  let ?l' = "?f * 2 ^ k"
  let ?st0 = "st\<lparr>reads := Suc (reads st)\<rparr>"
  have "(1::int) \<le> 2 ^ k"
    by simp
  then have "(1::int) < 2 * 2 ^ k"
    by linarith
  then have "?f * 1 < ?f * (2 * 2 ^ k)"
    using Suc.prems by (intro mult_strict_left_mono)
  then have "?f * (2 * 2 ^ k) \<noteq> ?f"
    by linarith
  then have ne: "?f * 2 ^ Suc k \<noteq> ?f"
    by (simp only: power_Suc simp_thms)
  have half: "drop_bit 1 (?f * 2 ^ Suc k) = ?l'"
    by (simp add: drop_bit_eq_div)
  have f0: "frag_size ?st0 = ?f"
    by simp
  have step1: "\<And>x y s. frag_size s = ?f \<Longrightarrow> recursor x y ?l' s = Some (recursor_depth k x y s)"
    using Suc.IH Suc.prems by metis
  have keep: "\<And>x y s. frag_size s = ?f \<Longrightarrow> frag_size (recursor_depth k x y s) = ?f"
    using env_recursor_depth env_frag_size by metis
  show ?case
  proof (cases "tact st (reads st) = 0")
    case False
    then show ?thesis
      using ne by (subst recursor.simps) (simp add: read_tact_def Let_def)
  next
    case True
    let ?s1 = "recursor_depth k x y ?st0"
    let ?s2 = "recursor_depth k (x + ?l') y ?s1"
    let ?s3 = "recursor_depth k (x + ?l') (y + ?l') ?s2"
    have r1: "recursor x y ?l' ?st0 = Some ?s1"
      by (rule step1) simp
    have r2: "recursor (x + ?l') y ?l' ?s1 = Some ?s2"
      by (rule step1) (simp add: keep)
    have r3: "recursor (x + ?l') (y + ?l') ?l' ?s2 = Some ?s3"
      by (rule step1) (simp add: keep)
    have r4: "recursor x (y + ?l') ?l' ?s3 = Some (recursor_depth k x (y + ?l') ?s3)"
      by (rule step1) (simp add: keep)
    have "recursor x y (?f * 2 ^ Suc k) st =
          recursor x y ?l' ?st0 \<bind> (\<lambda>st1. recursor (x + ?l') y ?l' st1 \<bind>
            (\<lambda>st2. recursor (x + ?l') (y + ?l') ?l' st2 \<bind> recursor x (y + ?l') ?l'))"
      using ne True half
      by (subst recursor.simps) (simp only: read_tact_def Let_def prod.case if_False if_True simp_thms)
    then show ?thesis
      using True by (simp add: r1 r2 r3 r4 read_tact_def Let_def)
  qed
qed


subsection \<open>What one call does to one pixel\<close>

lemma orig_in_block:
  assumes "0 < f" "f dvd (x - x0)" "x \<le> px" "px < x + f"
  shows "orig f x0 px = x"
proof -
  have "f dvd (px - x0) - (px - x)"
    using assms(2) by simp
  then have "(px - x0) mod f = (px - x) mod f"
    by (simp only: mod_eq_dvd_iff)
  also have "\<dots> = px - x"
    using assms(3,4) by simp
  finally show ?thesis
    by (simp add: orig_def)
qed

lemma pass_colour_cong:
  "env s = env t \<Longrightarrow> screen s px py = screen t px py \<Longrightarrow>
   pass_colour x0 y0 s px py = pass_colour x0 y0 t px py"
  by (simp add: pass_colour_def env_def pixel_colour_def)

lemma screen_terminal:
  assumes "0 < frag_size st" "frag_size st dvd (x - x0)" "frag_size st dvd (y - y0)"
  shows "screen (terminal x y st) px py =
         (if x \<le> px \<and> px < x + frag_size st \<and> y \<le> py \<and> py < y + frag_size st
          then pass_colour x0 y0 st px py else screen st px py)"
proof (cases "x \<le> px \<and> px < x + frag_size st \<and> y \<le> py \<and> py < y + frag_size st")
  case True
  then have "orig (frag_size st) x0 px = x" "orig (frag_size st) y0 py = y"
    using assms by (simp_all add: orig_in_block)
  then show ?thesis
    using True by (simp add: terminal_def pass_colour_def rectfill_def)
next
  case False
  then show ?thesis
    by (auto simp: terminal_def rectfill_def)
qed

lemma screen_recursor_depth:
  assumes "frag_size st = 2 ^ m" "2 ^ m dvd (x - x0)" "2 ^ m dvd (y - y0)"
    and "k = 0 \<or> tact st = (\<lambda>_. 0)"
  shows "screen (recursor_depth k x y st) px py =
         (if x \<le> px \<and> px < x + 2 ^ (m + k) \<and> y \<le> py \<and> py < y + 2 ^ (m + k)
          then pass_colour x0 y0 st px py else screen st px py)"
  using assms
proof (induction k arbitrary: x y st)
  case 0
  then show ?case
    using screen_terminal [of st x x0 y y0 px py] by simp
next
  case (Suc k)
  define l where "l = (2::int) ^ (m + k)"
  define s0 where "s0 = st\<lparr>reads := Suc (reads st)\<rparr>"
  define s1 where "s1 = recursor_depth k x y s0"
  define s2 where "s2 = recursor_depth k (x + l) y s1"
  define s3 where "s3 = recursor_depth k (x + l) (y + l) s2"
  define s4 where "s4 = recursor_depth k x (y + l) s3"
  have quiet: "tact st = (\<lambda>_. 0)"
    using Suc.prems(4) by simp
  have lpos: "0 < l"
    by (simp add: l_def)
  have ldvd: "2 ^ m dvd l"
    by (simp add: l_def power_add)
  have l2: "(2::int) ^ (m + Suc k) = 2 * l"
    by (simp add: l_def)
  have fl: "frag_size st * 2 ^ k = l"
    using Suc.prems(1) by (simp add: l_def power_add)
  have e0: "env s0 = env st" "screen s0 = screen st"
    by (simp_all add: s0_def env_def)
  have e1: "env s1 = env st"
    by (simp add: s1_def env_recursor_depth e0)
  have e2: "env s2 = env st"
    by (simp add: s2_def env_recursor_depth e1)
  have e3: "env s3 = env st"
    by (simp add: s3_def env_recursor_depth e2)
  have pre: "frag_size s = 2 ^ m \<and> (k = 0 \<or> tact s = (\<lambda>_. 0))" if "env s = env st" for s
    using that Suc.prems(1) quiet env_frag_size [of s st] env_tact [of s st] by simp
  have "x + l - x0 = (x - x0) + l" "y + l - y0 = (y - y0) + l"
    by simp_all
  then have dx: "2 ^ m dvd (x + l - x0)" and dy: "2 ^ m dvd (y + l - y0)"
    using Suc.prems(2,3) ldvd by (simp_all only: dvd_add)
  have c1: "screen s1 px py =
      (if x \<le> px \<and> px < x + l \<and> y \<le> py \<and> py < y + l
       then pass_colour x0 y0 s0 px py else screen s0 px py)"
    unfolding s1_def l_def
    using pre [OF e0(1)] Suc.prems(2,3) by (intro Suc.IH) simp_all
  have c2: "screen s2 px py =
      (if x + l \<le> px \<and> px < x + l + l \<and> y \<le> py \<and> py < y + l
       then pass_colour x0 y0 s1 px py else screen s1 px py)"
    unfolding s2_def
    using pre [OF e1] Suc.prems(3) dx by (subst Suc.IH) (simp_all add: l_def)
  have c3: "screen s3 px py =
      (if x + l \<le> px \<and> px < x + l + l \<and> y + l \<le> py \<and> py < y + l + l
       then pass_colour x0 y0 s2 px py else screen s2 px py)"
    unfolding s3_def
    using pre [OF e2] dx dy by (subst Suc.IH) (simp_all add: l_def)
  have c4: "screen s4 px py =
      (if x \<le> px \<and> px < x + l \<and> y + l \<le> py \<and> py < y + l + l
       then pass_colour x0 y0 s3 px py else screen s3 px py)"
    unfolding s4_def
    using pre [OF e3] Suc.prems(2) dy by (subst Suc.IH) (simp_all add: l_def)
  have p0: "pass_colour x0 y0 s0 px py = pass_colour x0 y0 st px py"
    by (rule pass_colour_cong) (simp_all add: e0)
  have p1: "pass_colour x0 y0 s1 px py = pass_colour x0 y0 st px py"
    if "screen s1 px py = screen st px py"
    using that by (intro pass_colour_cong e1)
  have p2: "pass_colour x0 y0 s2 px py = pass_colour x0 y0 st px py"
    if "screen s2 px py = screen st px py"
    using that by (intro pass_colour_cong e2)
  have p3: "pass_colour x0 y0 s3 px py = pass_colour x0 y0 st px py"
    if "screen s3 px py = screen st px py"
    using that by (intro pass_colour_cong e3)
  have res: "recursor_depth (Suc k) x y st = s4"
    using quiet by (simp add: read_tact_def Let_def fl s4_def s3_def s2_def s1_def s0_def)
  have "screen s4 px py =
         (if x \<le> px \<and> px < x + 2 * l \<and> y \<le> py \<and> py < y + 2 * l
          then pass_colour x0 y0 st px py else screen st px py)"
  proof (cases "x \<le> px \<and> px < x + l")
    case left: True
    show ?thesis
    proof (cases "y \<le> py \<and> py < y + l")
      case True
      with left lpos show ?thesis
        by (simp add: c4 c3 c2 c1 p0 e0)
    next
      case False
      with left lpos show ?thesis
        using p3 by (auto simp: c4 c3 c2 c1 e0)
    qed
  next
    case right: False
    show ?thesis
    proof (cases "y \<le> py \<and> py < y + l")
      case True
      with right lpos show ?thesis
        using p1 by (auto simp: c4 c3 c2 c1 e0)
    next
      case False
      with right lpos show ?thesis
        using p2 by (auto simp: c4 c3 c2 c1 e0)
    qed
  qed
  then show ?case
    by (simp only: res l2)
qed


subsection \<open>Every run of \<^verbatim>\<open>view\<close> returns, and it paints whole blocks only\<close>

text \<open>
  These lemmas hold for every behaviour of the timer: the recursion below a tile is at
  most four levels deep, and the three loops of \<^verbatim>\<open>view\<close> are bounded.
\<close>

lemma fills_same: "gfx st' = gfx st \<Longrightarrow> screen st' = screen st \<Longrightarrow> fills x0 y0 st st'"
  unfolding fills_def by (rule exI [of _ "[]"]) simp

lemma fills_trans: "fills x0 y0 s t \<Longrightarrow> fills x0 y0 t u \<Longrightarrow> fills x0 y0 s u"
proof -
  assume "fills x0 y0 s t" "fills x0 y0 t u"
  then obtain bs cs where
    t: "gfx t = gfx s @ map block_call bs" "screen t = foldl fill_block (screen s) bs"
       "list_all (grid_block x0 y0) bs" and
    u: "gfx u = gfx t @ map block_call cs" "screen u = foldl fill_block (screen t) cs"
       "list_all (grid_block x0 y0) cs"
    unfolding fills_def by blast
  show ?thesis
    unfolding fills_def
    by (rule exI [of _ "bs @ cs"]) (simp add: t u)
qed

lemma pow2_cases: "m \<le> 4 \<Longrightarrow> (2::int) ^ m \<in> {16, 8, 4, 2, 1}"
proof -
  assume "m \<le> 4"
  then consider "m = 0" | "m = 1" | "m = 2" | "m = 3" | "m = 4"
    by arith
  then show ?thesis
    by cases simp_all
qed

lemma fills_terminal:
  assumes "frag_size st = 2 ^ m" "m \<le> 4" "2 ^ m dvd (x - x0)" "2 ^ m dvd (y - y0)"
    "x0 \<le> x" "y0 \<le> y"
  shows "fills x0 y0 st (terminal x y st)"
proof (cases "paints (over st) (frag_size st) x y")
  case False
  then show ?thesis
    by (simp add: terminal_def fills_same)
next
  case True
  let ?b = "(x, y, frag_size st, pixel_colour st x y)"
  have "grid_block x0 y0 ?b"
    using assms pow2_cases [of m] by (simp add: grid_block_def)
  then show ?thesis
    using True unfolding fills_def
    by (intro exI [of _ "[?b]"])
       (simp add: terminal_def rectfill_def block_call_def fill_block_def)
qed

lemma fills_recursor_depth:
  assumes "frag_size st = 2 ^ m" "m \<le> 4" "2 ^ m dvd (x - x0)" "2 ^ m dvd (y - y0)"
    "x0 \<le> x" "y0 \<le> y"
  shows "fills x0 y0 st (recursor_depth k x y st)"
  using assms
proof (induction k arbitrary: x y st)
  case 0
  then show ?case
    by (simp add: fills_terminal)
next
  case (Suc k)
  define l where "l = (2::int) ^ (m + k)"
  define s0 where "s0 = st\<lparr>reads := Suc (reads st)\<rparr>"
  define s1 where "s1 = recursor_depth k x y s0"
  define s2 where "s2 = recursor_depth k (x + l) y s1"
  define s3 where "s3 = recursor_depth k (x + l) (y + l) s2"
  define s4 where "s4 = recursor_depth k x (y + l) s3"
  have lpos: "0 < l"
    by (simp add: l_def)
  have ldvd: "2 ^ m dvd l"
    by (simp add: l_def power_add)
  have fl: "frag_size st * 2 ^ k = l"
    using Suc.prems(1) by (simp add: l_def power_add)
  have f0: "fills x0 y0 st s0"
    by (rule fills_same) (simp_all add: s0_def)
  have e0: "env s0 = env st"
    by (simp add: s0_def env_def)
  have e1: "env s1 = env st"
    by (simp add: s1_def env_recursor_depth e0)
  have e2: "env s2 = env st"
    by (simp add: s2_def env_recursor_depth e1)
  have e3: "env s3 = env st"
    by (simp add: s3_def env_recursor_depth e2)
  have fs: "frag_size s = 2 ^ m" if "env s = env st" for s
    using that Suc.prems(1) env_frag_size [of s st] by simp
  have "x + l - x0 = (x - x0) + l" "y + l - y0 = (y - y0) + l"
    by simp_all
  then have dx: "2 ^ m dvd (x + l - x0)" and dy: "2 ^ m dvd (y + l - y0)"
    using Suc.prems(3,4) ldvd by (simp_all only: dvd_add)
  have gx: "x0 \<le> x + l" and gy: "y0 \<le> y + l"
    using Suc.prems(5,6) lpos by simp_all
  note px = Suc.prems(3) and py = Suc.prems(4) and qx = Suc.prems(5) and qy = Suc.prems(6)
    and mm = Suc.prems(2)
  have f1: "fills x0 y0 s0 s1"
    unfolding s1_def by (rule Suc.IH [OF fs [OF e0] mm px py qx qy])
  have f2: "fills x0 y0 s1 s2"
    unfolding s2_def by (rule Suc.IH [OF fs [OF e1] mm dx py gx qy])
  have f3: "fills x0 y0 s2 s3"
    unfolding s3_def by (rule Suc.IH [OF fs [OF e2] mm dx dy gx gy])
  have f4: "fills x0 y0 s3 s4"
    unfolding s4_def by (rule Suc.IH [OF fs [OF e3] mm px dy qx gy])
  have all: "fills x0 y0 st s4"
    by (rule fills_trans [OF fills_trans [OF fills_trans [OF fills_trans [OF f0 f1] f2] f3] f4])
  show ?case
  proof (cases "tact st (reads st) = 0")
    case True
    then have "recursor_depth (Suc k) x y st = s4"
      by (simp add: read_tact_def Let_def fl s4_def s3_def s2_def s1_def s0_def)
    with all show ?thesis
      by simp
  next
    case False
    then have "recursor_depth (Suc k) x y st = s0"
      by (simp add: read_tact_def s0_def)
    with f0 show ?thesis
      by simp
  qed
qed

text \<open>The loop over the tiles of one row, then the loop over the rows, then the passes.\<close>

lemma fills_view_x:
  assumes "step st = 16" "frag_size st = 2 ^ m" "m \<le> 4"
    "16 dvd (x - x0)" "16 dvd (y - y0)" "x0 \<le> x" "y0 \<le> y"
  shows "\<exists>st'. view_x x y xxe st = Some st' \<and> env st' = env st \<and> fills x0 y0 st st'"
  using assms
proof (induction "nat (xxe - x)" arbitrary: x st rule: less_induct)
  case less
  show ?case
  proof (cases "x < xxe")
    case False
    then have "view_x x y xxe st = Some st"
      by (subst view_x.simps) simp
    then show ?thesis
      by (simp add: fills_same)
  next
    case True
    define s1 where "s1 = recursor_depth (4 - m) x y st"
    have "(2::int) ^ m * 2 ^ (4 - m) = 2 ^ (m + (4 - m))"
      by (simp only: power_add)
    then have sz: "frag_size st * 2 ^ (4 - m) = step st"
      using less.prems(1,2,3) by simp
    have pos: "0 < frag_size st"
      using less.prems(2) by simp
    have r: "recursor x y (step st) st = Some s1"
      using recursor_levels [OF pos, of x y "4 - m"] sz by (simp add: s1_def)
    have e1: "env s1 = env st"
      by (simp add: s1_def env_recursor_depth)
    have "(2::int) ^ m dvd 2 ^ 4"
      using less.prems(3) by (rule le_imp_power_dvd)
    then have md: "2 ^ m dvd (16::int)"
      by simp
    have mx: "2 ^ m dvd (x - x0)" and my: "2 ^ m dvd (y - y0)"
      using md less.prems(4,5) by (blast intro: dvd_trans)+
    have f1: "fills x0 y0 st s1"
      unfolding s1_def
      by (rule fills_recursor_depth [OF less.prems(2,3) mx my less.prems(6,7)])
    have st1: "step s1 = 16" "frag_size s1 = 2 ^ m"
      using e1 less.prems(1,2) env_step [of s1 st] env_frag_size [of s1 st] by simp_all
    have "x + 16 - x0 = (x - x0) + 16"
      by simp
    then have d16: "16 dvd (x + 16 - x0)"
      using less.prems(4) by (simp only: dvd_add dvd_refl)
    have dec: "nat (xxe - (x + 16)) < nat (xxe - x)"
      using True by simp
    have gx: "x0 \<le> x + 16"
      using less.prems(6) by simp
    have "\<exists>st'. view_x (x + 16) y xxe s1 = Some st' \<and> env st' = env s1 \<and> fills x0 y0 s1 st'"
      by (rule less.hyps [OF dec st1 less.prems(3) d16 less.prems(5) gx less.prems(7)])
    then obtain st' where
      v: "view_x (x + 16) y xxe s1 = Some st'" "env st' = env s1" "fills x0 y0 s1 st'"
      by blast
    have "view_x x y xxe st = Some st'"
      using True r v(1) st1(1) by (subst view_x.simps) simp
    then show ?thesis
      using v(2,3) e1 f1 by (auto intro: fills_trans)
  qed
qed

lemma fills_view_y:
  assumes "step st = 16" "frag_size st = 2 ^ m" "m \<le> 4" "16 dvd (y - y0)" "y0 \<le> y"
  shows "\<exists>st'. view_y y xxs xxe yye st = Some st' \<and> env st' = env st \<and> fills xxs y0 st st'"
  using assms
proof (induction "nat (yye - y)" arbitrary: y st rule: less_induct)
  case less
  show ?case
  proof (cases "y < yye")
    case False
    then have "view_y y xxs xxe yye st = Some st"
      by (subst view_y.simps) simp
    then show ?thesis
      by (simp add: fills_same)
  next
    case True
    have x0: "16 dvd (xxs - xxs)" "xxs \<le> xxs"
      by simp_all
    obtain s1 where
      r: "view_x xxs y xxe st = Some s1" "env s1 = env st" "fills xxs y0 st s1"
      using fills_view_x [OF less.prems(1,2,3) x0(1) less.prems(4) x0(2) less.prems(5)]
      by blast
    have st1: "step s1 = 16" "frag_size s1 = 2 ^ m"
      using r(2) less.prems(1,2) env_step [of s1 st] env_frag_size [of s1 st] by simp_all
    have "y + 16 - y0 = (y - y0) + 16"
      by simp
    then have d16: "16 dvd (y + 16 - y0)"
      using less.prems(4) by (simp only: dvd_add dvd_refl)
    have dec: "nat (yye - (y + 16)) < nat (yye - y)"
      using True by simp
    have gy: "y0 \<le> y + 16"
      using less.prems(5) by simp
    obtain st' where
      v: "view_y (y + 16) xxs xxe yye s1 = Some st'" "env st' = env s1" "fills xxs y0 s1 st'"
      using less.hyps [OF dec st1 less.prems(3) d16 gy] by blast
    have "view_y y xxs xxe yye st = Some st'"
      using True r(1) v(1) st1(1) by (subst view_y.simps) simp
    then show ?thesis
      using v(2,3) r(2,3) by (auto intro: fills_trans)
  qed
qed

lemma fills_view_frag:
  assumes "step st = 16" "frag_size st = 2 ^ m" "m \<le> 4"
  shows "\<exists>st'. view_frag xxs yys xxe yye st = Some st' \<and> fills xxs yys st st'"
  using assms
proof (induction m arbitrary: st)
  case 0
  have y0: "16 dvd (yys - yys)" "yys \<le> yys"
    by simp_all
  obtain s1 where
    r: "view_y yys xxs xxe yye st = Some s1" "env s1 = env st" "fills xxs yys st s1"
    using fills_view_y [OF "0.prems" y0] by blast
  define s2 where "s2 = s1\<lparr>frag_size := drop_bit 1 (frag_size s1), over := 0\<rparr>"
  have "frag_size s1 = 1"
    using r(2) "0.prems"(2) env_frag_size [of s1 st] by simp
  then have "frag_size s2 = 0"
    by (simp add: s2_def)
  then have "view_frag xxs yys xxe yye s2 = Some s2"
    by (subst view_frag.simps) simp
  moreover have "1 \<le> frag_size st"
    using "0.prems"(2) by simp
  ultimately have "view_frag xxs yys xxe yye st = Some s2"
    using r(1) by (subst view_frag.simps) (simp add: s2_def)
  moreover have "fills xxs yys s1 s2"
    by (rule fills_same) (simp_all add: s2_def)
  ultimately show ?case
    using r(3) by (auto intro: fills_trans)
next
  case (Suc m)
  have y0: "16 dvd (yys - yys)" "yys \<le> yys"
    by simp_all
  obtain s1 where
    r: "view_y yys xxs xxe yye st = Some s1" "env s1 = env st" "fills xxs yys st s1"
    using fills_view_y [OF Suc.prems y0] by blast
  define s2 where "s2 = s1\<lparr>frag_size := drop_bit 1 (frag_size s1), over := 0\<rparr>"
  have f1: "frag_size s1 = 2 ^ Suc m" and t1: "step s1 = 16"
    using r(2) Suc.prems(1,2) env_frag_size [of s1 st] env_step [of s1 st] by simp_all
  have f2: "frag_size s2 = 2 ^ m"
    using f1 by (simp add: s2_def drop_bit_eq_div)
  have t2: "step s2 = 16"
    using t1 by (simp add: s2_def)
  have m4: "m \<le> 4"
    using Suc.prems(3) by simp
  obtain st' where v: "view_frag xxs yys xxe yye s2 = Some st'" "fills xxs yys s2 st'"
    using Suc.IH [OF t2 f2 m4] by blast
  have "(1::int) \<le> 2 ^ Suc m"
    by (rule one_le_power) simp
  then have "1 \<le> frag_size st"
    using Suc.prems(2) by simp
  then have "view_frag xxs yys xxe yye st = Some st'"
    using r(1) v(1) by (subst view_frag.simps) (simp add: s2_def)
  moreover have "fills xxs yys s1 s2"
    by (rule fills_same) (simp_all add: s2_def)
  ultimately show ?case
    using r(3) v(2) by (auto intro: fills_trans)
qed

lemma fills_view: "\<exists>st'. view xxs yys xxe yye st = Some st' \<and> fills xxs yys st st'"
proof -
  define s3 where "s3 = st\<lparr>over := 1, step := 16, frag_size := 16\<rparr>"
  have "step s3 = 16" "frag_size s3 = 2 ^ 4" "(4::nat) \<le> 4"
    by (simp_all add: s3_def)
  then obtain st' where v: "view_frag xxs yys xxe yye s3 = Some st'" "fills xxs yys s3 st'"
    using fills_view_frag by blast
  have "view xxs yys xxe yye st = Some st'"
    using v(1) by (simp add: view_def s3_def Let_def)
  moreover have "fills xxs yys st s3"
    by (rule fills_same) (simp_all add: s3_def)
  ultimately show ?thesis
    using v(2) by (auto intro: fills_trans)
qed


subsection \<open>What the passes do to one pixel\<close>

text \<open>
  The hypothesis \<open>m = 4 \<or> tact st = (\<lambda>_. 0)\<close> reads: this is the pass at edge 16, in
  which no call ever reads the timer, or the timer stays at 0.
\<close>

lemma orig_bounds:
  assumes "0 < f"
  shows "orig f x0 px \<le> px" "px < orig f x0 px + f"
proof -
  have "0 \<le> (px - x0) mod f" "(px - x0) mod f < f"
    using assms by simp_all
  then show "orig f x0 px \<le> px" "px < orig f x0 px + f"
    by (simp_all add: orig_def)
qed

lemma orig_ge:
  assumes "0 < f" "f dvd (x - x0)" "x \<le> px"
  shows "x \<le> orig f x0 px"
proof -
  have "f dvd (px - x0) - (px - x)"
    using assms(2) by simp
  then have "(px - x0) mod f = (px - x) mod f"
    by (simp only: mod_eq_dvd_iff)
  also have "\<dots> \<le> px - x"
    using assms(3) by (intro zmod_le_nonneg_dividend) simp
  finally show ?thesis
    by (simp add: orig_def)
qed

lemma reads_terminal: "reads (terminal x y st) = reads st"
  by (simp add: terminal_def rectfill_def)

text \<open>One row of tiles, then all rows of one pass.\<close>

lemma screen_view_x:
  assumes "step st = 16" "frag_size st = 2 ^ m" "m \<le> 4"
    "16 dvd (x - x0)" "16 dvd (y - y0)" "m = 4 \<or> tact st = (\<lambda>_. 0)"
  shows "\<exists>st'. view_x x y xxe st = Some st' \<and> env st' = env st
           \<and> (m = 4 \<longrightarrow> reads st' = reads st)
           \<and> screen st' px py =
               (if x \<le> px \<and> orig 16 x0 px < xxe \<and> y \<le> py \<and> py < y + 16
                then pass_colour x0 y0 st px py else screen st px py)"
  using assms
proof (induction "nat (xxe - x)" arbitrary: x st rule: less_induct)
  case less
  show ?case
  proof (cases "x < xxe")
    case False
    then have v: "view_x x y xxe st = Some st"
      by (subst view_x.simps) simp
    have "x \<le> orig 16 x0 px" if "x \<le> px"
      using that less.prems(4) by (intro orig_ge) simp_all
    then have "\<not> (x \<le> px \<and> orig 16 x0 px < xxe)"
      using False by auto
    then show ?thesis
      using v by auto
  next
    case True
    define s1 where "s1 = recursor_depth (4 - m) x y st"
    have "(2::int) ^ m * 2 ^ (4 - m) = 2 ^ (m + (4 - m))"
      by (simp only: power_add)
    then have sz: "frag_size st * 2 ^ (4 - m) = step st"
      using less.prems(1,2,3) by simp
    have pos: "0 < frag_size st"
      using less.prems(2) by simp
    have r: "recursor x y (step st) st = Some s1"
      using recursor_levels [OF pos, of x y "4 - m"] sz by (simp add: s1_def)
    have e1: "env s1 = env st"
      by (simp add: s1_def env_recursor_depth)
    have "(2::int) ^ m dvd 2 ^ 4"
      using less.prems(3) by (rule le_imp_power_dvd)
    then have md: "2 ^ m dvd (16::int)"
      by simp
    have mx: "2 ^ m dvd (x - x0)" and my: "2 ^ m dvd (y - y0)"
      using md less.prems(4,5) by (blast intro: dvd_trans)+
    have kq: "4 - m = 0 \<or> tact st = (\<lambda>_. 0)"
      using less.prems(6) by auto
    have "(2::int) ^ (m + (4 - m)) = 16"
      using less.prems(3) by simp
    then have c1: "screen s1 px py =
        (if x \<le> px \<and> px < x + 16 \<and> y \<le> py \<and> py < y + 16
         then pass_colour x0 y0 st px py else screen st px py)"
      using screen_recursor_depth [OF less.prems(2) mx my kq, of px py] by (simp add: s1_def)
    have rd1: "reads s1 = reads st" if "m = 4"
      using that by (simp add: s1_def reads_terminal)
    have st1: "step s1 = 16" "frag_size s1 = 2 ^ m"
      using e1 less.prems(1,2) env_step [of s1 st] env_frag_size [of s1 st] by simp_all
    have q1: "m = 4 \<or> tact s1 = (\<lambda>_. 0)"
      using less.prems(6) e1 env_tact [of s1 st] by auto
    have "x + 16 - x0 = (x - x0) + 16"
      by simp
    then have d16: "16 dvd (x + 16 - x0)"
      using less.prems(4) by (simp only: dvd_add dvd_refl)
    have dec: "nat (xxe - (x + 16)) < nat (xxe - x)"
      using True by simp
    obtain st' where
      v: "view_x (x + 16) y xxe s1 = Some st'" "env st' = env s1"
         "m = 4 \<longrightarrow> reads st' = reads s1"
         "screen st' px py =
            (if x + 16 \<le> px \<and> orig 16 x0 px < xxe \<and> y \<le> py \<and> py < y + 16
             then pass_colour x0 y0 s1 px py else screen s1 px py)"
      using less.hyps [OF dec st1 less.prems(3) d16 less.prems(5) q1] by blast
    have whole: "view_x x y xxe st = Some st'"
      using True r v(1) st1(1) by (subst view_x.simps) simp
    have intile: "orig 16 x0 px = x" if "x \<le> px" "px < x + 16"
      using that less.prems(4) by (intro orig_in_block) simp_all
    have far: "pass_colour x0 y0 s1 px py = pass_colour x0 y0 st px py" if "x + 16 \<le> px"
      using that c1 by (intro pass_colour_cong e1) simp
    have "screen st' px py =
            (if x \<le> px \<and> orig 16 x0 px < xxe \<and> y \<le> py \<and> py < y + 16
             then pass_colour x0 y0 st px py else screen st px py)"
    proof (cases "x \<le> px \<and> px < x + 16")
      case True
      then show ?thesis
        using intile \<open>x < xxe\<close> by (simp add: v(4) c1)
    next
      case False
      then show ?thesis
        using far by (auto simp: v(4) c1)
    qed
    then show ?thesis
      using whole v(2,3) e1 rd1 by simp
  qed
qed

lemma screen_view_y:
  assumes "step st = 16" "frag_size st = 2 ^ m" "m \<le> 4"
    "16 dvd (y - y0)" "m = 4 \<or> tact st = (\<lambda>_. 0)"
  shows "\<exists>st'. view_y y xxs xxe yye st = Some st' \<and> env st' = env st
           \<and> (m = 4 \<longrightarrow> reads st' = reads st)
           \<and> screen st' px py =
               (if xxs \<le> px \<and> orig 16 xxs px < xxe \<and> y \<le> py \<and> orig 16 y0 py < yye
                then pass_colour xxs y0 st px py else screen st px py)"
  using assms
proof (induction "nat (yye - y)" arbitrary: y st rule: less_induct)
  case less
  show ?case
  proof (cases "y < yye")
    case False
    then have v: "view_y y xxs xxe yye st = Some st"
      by (subst view_y.simps) simp
    have "y \<le> orig 16 y0 py" if "y \<le> py"
      using that less.prems(4) by (intro orig_ge) simp_all
    then have "\<not> (y \<le> py \<and> orig 16 y0 py < yye)"
      using False by auto
    then show ?thesis
      using v by auto
  next
    case True
    have x0: "16 dvd (xxs - xxs)"
      by simp
    obtain s1 where
      r: "view_x xxs y xxe st = Some s1" "env s1 = env st"
         "m = 4 \<longrightarrow> reads s1 = reads st"
         "screen s1 px py =
            (if xxs \<le> px \<and> orig 16 xxs px < xxe \<and> y \<le> py \<and> py < y + 16
             then pass_colour xxs y0 st px py else screen st px py)"
      using screen_view_x [OF less.prems(1,2,3) x0 less.prems(4,5), of xxe px py] by blast
    have st1: "step s1 = 16" "frag_size s1 = 2 ^ m"
      using r(2) less.prems(1,2) env_step [of s1 st] env_frag_size [of s1 st] by simp_all
    have q1: "m = 4 \<or> tact s1 = (\<lambda>_. 0)"
      using less.prems(5) r(2) env_tact [of s1 st] by auto
    have "y + 16 - y0 = (y - y0) + 16"
      by simp
    then have d16: "16 dvd (y + 16 - y0)"
      using less.prems(4) by (simp only: dvd_add dvd_refl)
    have dec: "nat (yye - (y + 16)) < nat (yye - y)"
      using True by simp
    obtain st' where
      v: "view_y (y + 16) xxs xxe yye s1 = Some st'" "env st' = env s1"
         "m = 4 \<longrightarrow> reads st' = reads s1"
         "screen st' px py =
            (if xxs \<le> px \<and> orig 16 xxs px < xxe \<and> y + 16 \<le> py \<and> orig 16 y0 py < yye
             then pass_colour xxs y0 s1 px py else screen s1 px py)"
      using less.hyps [OF dec st1 less.prems(3) d16 q1] by blast
    have whole: "view_y y xxs xxe yye st = Some st'"
      using True r(1) v(1) st1(1) by (subst view_y.simps) simp
    have inrow: "orig 16 y0 py = y" if "y \<le> py" "py < y + 16"
      using that less.prems(4) by (intro orig_in_block) simp_all
    have far: "pass_colour xxs y0 s1 px py = pass_colour xxs y0 st px py" if "y + 16 \<le> py"
      using that r(4) by (intro pass_colour_cong r(2)) simp
    have "screen st' px py =
            (if xxs \<le> px \<and> orig 16 xxs px < xxe \<and> y \<le> py \<and> orig 16 y0 py < yye
             then pass_colour xxs y0 st px py else screen st px py)"
    proof (cases "y \<le> py \<and> py < y + 16")
      case True
      then show ?thesis
        using inrow \<open>y < yye\<close> by (simp add: v(4) r(4))
    next
      case False
      then show ?thesis
        using far by (auto simp: v(4) r(4))
    qed
    then show ?thesis
      using whole v(2,3) r(2,3) by simp
  qed
qed

lemma pass_colour_block_step:
  "pass_colour x0 y0 st px py =
   block_step st x0 y0 px py (over st) (frag_size st) (screen st px py)"
  by (simp add: pass_colour_def block_step_def)

lemma block_step_cong:
  "pixel_colour s = pixel_colour t \<Longrightarrow>
   block_step s x0 y0 px py ov f c = block_step t x0 y0 px py ov f c"
  by (simp add: block_step_def)

lemma after_passes_cong:
  "pixel_colour s = pixel_colour t \<Longrightarrow>
   after_passes s x0 y0 px py ov m c = after_passes t x0 y0 px py ov m c"
  by (induction m arbitrary: ov c) (simp_all add: block_step_cong [of s t])

text \<open>The passes from edge \<open>2 ^ m\<close> down to 1, with a timer that stays at zero.\<close>

lemma screen_view_frag:
  assumes "step st = 16" "frag_size st = 2 ^ m" "m \<le> 4" "tact st = (\<lambda>_. 0)"
    "xxs \<le> px" "orig 16 xxs px < xxe" "yys \<le> py" "orig 16 yys py < yye"
  shows "\<exists>st'. view_frag xxs yys xxe yye st = Some st'
           \<and> screen st' px py = after_passes st xxs yys px py (over st) m (screen st px py)"
  using assms(1-4)
proof (induction m arbitrary: st)
  case 0
  have y0: "16 dvd (yys - yys)"
    by simp
  have q: "0 = (4::nat) \<or> tact st = (\<lambda>_. 0)"
    using "0.prems"(4) by simp
  obtain s1 where
    r: "view_y yys xxs xxe yye st = Some s1" "env s1 = env st"
       "screen s1 px py =
          (if xxs \<le> px \<and> orig 16 xxs px < xxe \<and> yys \<le> py \<and> orig 16 yys py < yye
           then pass_colour xxs yys st px py else screen st px py)"
    using screen_view_y [OF "0.prems"(1,2,3) y0 q, of xxs xxe yye px py] by blast
  define s2 where "s2 = s1\<lparr>frag_size := drop_bit 1 (frag_size s1), over := 0\<rparr>"
  have "frag_size s1 = 1"
    using r(2) "0.prems"(2) env_frag_size [of s1 st] by simp
  then have "frag_size s2 = 0"
    by (simp add: s2_def)
  then have "view_frag xxs yys xxe yye s2 = Some s2"
    by (subst view_frag.simps) simp
  moreover have "1 \<le> frag_size st"
    using "0.prems"(2) by simp
  ultimately have "view_frag xxs yys xxe yye st = Some s2"
    using r(1) by (subst view_frag.simps) (simp add: s2_def)
  moreover have "screen s2 px py = block_step st xxs yys px py (over st) 1 (screen st px py)"
    using r(3) assms(5-8) "0.prems"(2) by (simp add: s2_def pass_colour_block_step)
  ultimately show ?case
    by simp
next
  case (Suc m)
  have y0: "16 dvd (yys - yys)"
    by simp
  have q: "Suc m = 4 \<or> tact st = (\<lambda>_. 0)"
    using Suc.prems(4) by simp
  obtain s1 where
    r: "view_y yys xxs xxe yye st = Some s1" "env s1 = env st"
       "screen s1 px py =
          (if xxs \<le> px \<and> orig 16 xxs px < xxe \<and> yys \<le> py \<and> orig 16 yys py < yye
           then pass_colour xxs yys st px py else screen st px py)"
    using screen_view_y [OF Suc.prems(1,2,3) y0 q, of xxs xxe yye px py] by blast
  define s2 where "s2 = s1\<lparr>frag_size := drop_bit 1 (frag_size s1), over := 0\<rparr>"
  have f1: "frag_size s1 = 2 ^ Suc m" and t1: "step s1 = 16" and q1: "tact s1 = (\<lambda>_. 0)"
    using r(2) Suc.prems(1,2,4) env_frag_size [of s1 st] env_step [of s1 st] env_tact [of s1 st]
    by simp_all
  have f2: "frag_size s2 = 2 ^ m"
    using f1 by (simp add: s2_def drop_bit_eq_div)
  have t2: "step s2 = 16" and q2: "tact s2 = (\<lambda>_. 0)" and o2: "over s2 = 0"
    and sc2: "screen s2 = screen s1"
    using t1 q1 by (simp_all add: s2_def)
  have pc: "pixel_colour s2 = pixel_colour st"
    using env_pixel_colour [OF r(2)] by (simp add: s2_def pixel_colour_def fun_eq_iff)
  have m4: "m \<le> 4"
    using Suc.prems(3) by simp
  obtain st' where
    v: "view_frag xxs yys xxe yye s2 = Some st'"
       "screen st' px py = after_passes s2 xxs yys px py (over s2) m (screen s2 px py)"
    using Suc.IH [OF t2 f2 m4 q2] by blast
  have "(1::int) \<le> 2 ^ Suc m"
    by (rule one_le_power) simp
  then have "1 \<le> frag_size st"
    using Suc.prems(2) by simp
  then have whole: "view_frag xxs yys xxe yye st = Some st'"
    using r(1) v(1) by (subst view_frag.simps) (simp add: s2_def)
  have "screen s1 px py = block_step st xxs yys px py (over st) (2 ^ Suc m) (screen st px py)"
    using r(3) assms(5-8) Suc.prems(2) by (simp add: pass_colour_block_step)
  then have "screen st' px py =
      after_passes st xxs yys px py 0 m
        (block_step st xxs yys px py (over st) (2 ^ Suc m) (screen st px py))"
    using v(2) by (simp add: o2 sc2 after_passes_cong [OF pc])
  then show ?case
    using whole by simp
qed

lemma screen_view:
  assumes "tact st = (\<lambda>_. 0)"
    "xxs \<le> px" "orig 16 xxs px < xxe" "yys \<le> py" "orig 16 yys py < yye"
  shows "read_back px py (view xxs yys xxe yye st) =
         Some (after_passes st xxs yys px py 1 4 (screen st px py))"
proof -
  define s3 where "s3 = st\<lparr>over := 1, step := 16, frag_size := 16\<rparr>"
  have h: "step s3 = 16" "frag_size s3 = 2 ^ 4" "(4::nat) \<le> 4" "tact s3 = (\<lambda>_. 0)"
    using assms(1) by (simp_all add: s3_def)
  obtain st' where
    v: "view_frag xxs yys xxe yye s3 = Some st'"
       "screen st' px py = after_passes s3 xxs yys px py (over s3) 4 (screen s3 px py)"
    using screen_view_frag [OF h assms(2-5)] by blast
  have pc: "pixel_colour s3 = pixel_colour st"
    by (simp add: s3_def pixel_colour_def fun_eq_iff)
  have "view xxs yys xxe yye st = Some st'"
    using v(1) by (simp add: view_def s3_def Let_def)
  moreover have "screen st' px py = after_passes st xxs yys px py 1 4 (screen st px py)"
    using v(2) by (simp add: after_passes_cong [OF pc]) (simp add: s3_def)
  ultimately show ?thesis
    by (simp add: read_back_def)
qed

text \<open>
  On a grid whose origin is a multiple of 16 in both coordinates, skipping loses
  nothing: a block that is skipped at edge \<open>f\<close> has an origin divisible by \<open>2 * f\<close>,
  which is then also the origin of the block of edge \<open>2 * f\<close> around it.
\<close>

lemma block_step_aligned:
  assumes "16 dvd x0" "16 dvd y0" "m \<le> 4"
    "ov \<noteq> 0 \<or> (m < 4 \<and> c = pixel_colour st (orig (2 * 2 ^ m) x0 px) (orig (2 * 2 ^ m) y0 py))"
  shows "block_step st x0 y0 px py ov (2 ^ m) c =
         pixel_colour st (orig (2 ^ m) x0 px) (orig (2 ^ m) y0 py)"
proof (cases "paints ov (2 ^ m) (orig (2 ^ m) x0 px) (orig (2 ^ m) y0 py)")
  case True
  then show ?thesis
    by (simp add: block_step_def)
next
  case False
  then have ov: "ov = 0" and bx: "(2 * 2 ^ m) dvd orig (2 ^ m) x0 px"
    and bt: "(2 * 2 ^ m) dvd orig (2 ^ m) y0 py"
    by (simp_all add: paints_dvd)
  with assms(4) have m4: "m < 4"
    and c: "c = pixel_colour st (orig (2 * 2 ^ m) x0 px) (orig (2 * 2 ^ m) y0 py)"
    by simp_all
  have "(2::int) ^ Suc m dvd 2 ^ 4"
    using m4 by (intro le_imp_power_dvd) simp
  then have d16: "(2 * 2 ^ m) dvd (16::int)"
    by simp
  have ax: "(2 * 2 ^ m) dvd x0" and ay: "(2 * 2 ^ m) dvd y0"
    using d16 assms(1,2) by (blast intro: dvd_trans)+
  have pos: "(0::int) < 2 ^ m" "(0::int) < 2 * 2 ^ m"
    by simp_all
  have "orig (2 * 2 ^ m) x0 px = orig (2 ^ m) x0 px"
  proof (rule orig_in_block [OF pos(2)])
    show "(2 * 2 ^ m) dvd (orig (2 ^ m) x0 px - x0)"
      using bx ax by (rule dvd_diff)
    show "orig (2 ^ m) x0 px \<le> px"
      using orig_bounds(1) [OF pos(1)] .
    show "px < orig (2 ^ m) x0 px + 2 * 2 ^ m"
      using orig_bounds(2) [OF pos(1), of px x0] pos(1) by linarith
  qed
  moreover have "orig (2 * 2 ^ m) y0 py = orig (2 ^ m) y0 py"
  proof (rule orig_in_block [OF pos(2)])
    show "(2 * 2 ^ m) dvd (orig (2 ^ m) y0 py - y0)"
      using bt ay by (rule dvd_diff)
    show "orig (2 ^ m) y0 py \<le> py"
      using orig_bounds(1) [OF pos(1)] .
    show "py < orig (2 ^ m) y0 py + 2 * 2 ^ m"
      using orig_bounds(2) [OF pos(1), of py y0] pos(1) by linarith
  qed
  ultimately show ?thesis
    using False c by (simp add: block_step_def)
qed

lemma after_passes_aligned:
  assumes "16 dvd x0" "16 dvd y0" "m \<le> 4"
    "ov \<noteq> 0 \<or> (m < 4 \<and> c = pixel_colour st (orig (2 * 2 ^ m) x0 px) (orig (2 * 2 ^ m) y0 py))"
  shows "after_passes st x0 y0 px py ov m c = pixel_colour st px py"
  using assms(3,4)
proof (induction m arbitrary: ov c)
  case 0
  have "block_step st x0 y0 px py ov (2 ^ 0) c =
        pixel_colour st (orig (2 ^ 0) x0 px) (orig (2 ^ 0) y0 py)"
    using "0.prems" by (intro block_step_aligned assms(1,2)) simp_all
  then show ?case
    by (simp add: orig_def)
next
  case (Suc m)
  have "block_step st x0 y0 px py ov (2 ^ Suc m) c =
        pixel_colour st (orig (2 ^ Suc m) x0 px) (orig (2 ^ Suc m) y0 py)"
    using Suc.prems by (intro block_step_aligned assms(1,2)) simp_all
  moreover have "m \<le> 4" "m < 4"
    using Suc.prems(1) by simp_all
  ultimately have "after_passes st x0 y0 px py 0 m (block_step st x0 y0 px py ov (2 ^ Suc m) c)
      = pixel_colour st px py"
    by (intro Suc.IH) simp_all
  then show ?case
    by simp
qed

text \<open>
  Claim C1, as the code has it. Take a rectangle whose origin \<open>(xxs, yys)\<close> has both
  coordinates divisible by 16, as in every call the program makes, and let every read
  of the timer see 0 (no cancellation). Then \<^verbatim>\<open>view\<close> returns, and every pixel
  \<open>(px, py)\<close> of the rectangle holds the colour that an evaluation at that very pixel
  gives: \<^verbatim>\<open>iter_function( xs+px*xu, ys+py*yu )\<close>. This holds for every evaluate
  function and every viewport.
\<close>

theorem view_equals_per_pixel_evaluation:
  assumes "16 dvd xxs" "16 dvd yys" "tact st = (\<lambda>_. 0)"
    "xxs \<le> px" "px < xxe" "yys \<le> py" "py < yye"
  shows "read_back px py (view xxs yys xxe yye st) =
         Some (iter_function st (xs st + of_int px * xu st) (ys st + of_int py * yu st))"
proof -
  have "orig 16 xxs px \<le> px" "orig 16 yys py \<le> py"
    by (simp_all add: orig_bounds(1))
  then have cov: "orig 16 xxs px < xxe" "orig 16 yys py < yye"
    using assms(5,7) by simp_all
  have "read_back px py (view xxs yys xxe yye st) =
        Some (after_passes st xxs yys px py 1 4 (screen st px py))"
    by (rule screen_view [OF assms(3,4) cov(1) assms(6) cov(2)])
  moreover have "after_passes st xxs yys px py 1 4 (screen st px py) = pixel_colour st px py"
    by (rule after_passes_aligned [OF assms(1,2)]) simp_all
  ultimately show ?thesis
    by (simp add: pixel_colour_def)
qed

text \<open>The theorem at a rectangle of two tiles, for the pixel \<open>(17, 3)\<close>.\<close>

theorem view_equals_per_pixel_evaluation_witness:
  "(16::int) dvd 0 \<and> tact example_state = (\<lambda>_. 0)
   \<and> (0::int) \<le> 17 \<and> (17::int) < 32 \<and> (0::int) \<le> 3 \<and> (3::int) < 16
   \<and> read_back 17 3 (view 0 0 32 16 example_state) = Some (mandel_iterator 17 3)"
proof -
  have q: "tact example_state = (\<lambda>_. 0)"
    by (simp add: example_state_def)
  have d: "(16::int) dvd 0"
    by simp
  have b: "(0::int) \<le> 17" "(17::int) < 32" "(0::int) \<le> 3" "(3::int) < 16"
    by simp_all
  have "read_back 17 3 (view 0 0 32 16 example_state) =
        Some (iter_function example_state
                (xs example_state + of_int 17 * xu example_state)
                (ys example_state + of_int 3 * yu example_state))"
    by (rule view_equals_per_pixel_evaluation [OF d d q b])
  then show ?thesis
    using q by (simp add: example_state_def)
qed

text \<open>
  Claim C1 as it is worded speaks of every pixel rectangle. The skip rule tests the
  absolute coordinates of a block, while the grid of blocks starts at the origin of the
  rectangle. For the rectangle from \<open>(1, 1)\<close> to \<open>(3, 3)\<close> the pixel \<open>(2, 2)\<close> is
  skipped in the last pass, because both coordinates are even, and keeps the colour of
  the block of edge 2 at \<open>(1, 1)\<close>: it ends with the colour 1 of the point \<open>(1, 1)\<close>,
  where its own evaluation gives 0.
\<close>

theorem view_unaligned_counterexample:
  "read_back 2 2 (view 1 1 3 3 example_state) = Some 1
   \<and> iter_function example_state
        (xs example_state + of_int 2 * xu example_state)
        (ys example_state + of_int 2 * yu example_state) = 0"
proof -
  have q: "tact example_state = (\<lambda>_. 0)"
    by (simp add: example_state_def)
  have cov: "(1::int) \<le> 2" "orig 16 1 2 < 3"
    by (simp_all add: orig_def)
  have "read_back 2 2 (view 1 1 3 3 example_state) =
        Some (after_passes example_state 1 1 2 2 1 4 (screen example_state 2 2))"
    by (rule screen_view [OF q cov cov])
  moreover have m11: "mandel_iterator 1 1 = 1"
    by (simp add: mandel_iterator_def iter_while.simps Re_Z_def Im_Z_def ipp_def)
  have "after_passes example_state 1 1 2 2 1 4 (screen example_state 2 2) = 1"
    by (simp add: eval_nat_numeral block_step_def orig_def paints_def pixel_colour_def
        example_state_def m11)
  moreover have "mandel_iterator 2 2 = 0"
    by (simp add: mandel_iterator_def iter_while.simps)
  ultimately show ?thesis
    by (simp add: example_state_def)
qed


subsection \<open>The five passes of \<^verbatim>\<open>view\<close>, one by one\<close>

lemma view_y_total:
  assumes "step st = 16" "frag_size st = 2 ^ m" "m \<le> 4"
  shows "\<exists>st'. view_y yys xxs xxe yye st = Some st' \<and> env st' = env st"
proof -
  have "16 dvd (yys - yys)" "yys \<le> yys"
    by simp_all
  then show ?thesis
    using fills_view_y [OF assms, of yys yys xxs xxe yye] by blast
qed

lemma view_frag_unfold:
  assumes "step st = 16" "frag_size st = 2 * f" "f = 2 ^ m" "m < 4"
  shows "view_frag xxs yys xxe yye st =
         view_y yys xxs xxe yye st \<bind>
           (\<lambda>s. view_frag xxs yys xxe yye (s\<lparr>frag_size := f, over := 0\<rparr>))"
proof -
  have fs: "frag_size st = 2 ^ Suc m" and m4: "Suc m \<le> 4"
    using assms(2,3,4) by simp_all
  obtain s1 where r: "view_y yys xxs xxe yye st = Some s1" "env s1 = env st"
    using view_y_total [OF assms(1) fs m4, of yys xxs xxe yye] by blast
  have "frag_size s1 = 2 * f"
    using r(2) assms(2) env_frag_size [of s1 st] by simp
  then have h: "drop_bit 1 (frag_size s1) = f"
    by (simp add: drop_bit_eq_div)
  have "(1::int) \<le> 2 ^ Suc m"
    by (rule one_le_power) simp
  then have "1 \<le> frag_size st"
    using fs by simp
  then show ?thesis
    using r(1) h by (subst view_frag.simps) simp
qed

lemma view_frag_last:
  assumes "step st = 16" "frag_size st = 1"
  shows "view_frag xxs yys xxe yye st =
         view_y yys xxs xxe yye st \<bind> (\<lambda>s. Some (s\<lparr>frag_size := 0, over := 0\<rparr>))"
proof -
  have fs: "frag_size st = 2 ^ 0" and m4: "(0::nat) \<le> 4"
    using assms(2) by simp_all
  obtain s1 where r: "view_y yys xxs xxe yye st = Some s1" "env s1 = env st"
    using view_y_total [OF assms(1) fs m4, of yys xxs xxe yye] by blast
  have "frag_size s1 = 1"
    using r(2) assms(2) env_frag_size [of s1 st] by simp
  then have h: "drop_bit 1 (frag_size s1) = 0"
    by (simp add: drop_bit_eq_div)
  have "view_frag xxs yys xxe yye (s1\<lparr>frag_size := 0, over := 0\<rparr>)
        = Some (s1\<lparr>frag_size := 0, over := 0\<rparr>)"
    by (subst view_frag.simps) simp
  then show ?thesis
    using r(1) h assms(2) by (subst view_frag.simps) simp
qed

lemma view_y_step:
  assumes "view_y yys xxs xxe yye st = Some s" "step st = 16" "frag_size st = 2 ^ m" "m \<le> 4"
  shows "step s = 16"
proof -
  obtain s1 where r: "view_y yys xxs xxe yye st = Some s1" "env s1 = env st"
    using view_y_total [OF assms(2,3,4), of yys xxs xxe yye] by blast
  then show ?thesis
    using assms(1,2) env_step [of s1 st] by simp
qed

lemma next_pass_step:
  assumes "next_pass f xxs yys xxe yye st = Some s" "step st = 16" "f = 2 ^ m" "m \<le> 4"
  shows "step s = 16"
  using assms view_y_step [of yys xxs xxe yye "st\<lparr>frag_size := f, over := 0\<rparr>" s m]
  by (simp add: next_pass_def)

lemma passes_from_1:
  assumes "step st = 16"
  shows "view_frag xxs yys xxe yye (st\<lparr>frag_size := 1, over := 0\<rparr>) =
         next_pass 1 xxs yys xxe yye st \<bind> (\<lambda>s. Some (s\<lparr>frag_size := 0, over := 0\<rparr>))"
  using assms view_frag_last [of "st\<lparr>frag_size := 1, over := 0\<rparr>" xxs yys xxe yye]
  by (simp add: next_pass_def)

lemma passes_from_2:
  assumes "step st = 16"
  shows "view_frag xxs yys xxe yye (st\<lparr>frag_size := 2, over := 0\<rparr>) =
         next_pass 2 xxs yys xxe yye st \<bind> next_pass 1 xxs yys xxe yye
           \<bind> (\<lambda>s. Some (s\<lparr>frag_size := 0, over := 0\<rparr>))"
proof -
  have "view_frag xxs yys xxe yye (st\<lparr>frag_size := 2, over := 0\<rparr>) =
        next_pass 2 xxs yys xxe yye st \<bind>
          (\<lambda>s. view_frag xxs yys xxe yye (s\<lparr>frag_size := 1, over := 0\<rparr>))"
  proof -
    have a: "step (st\<lparr>frag_size := 2, over := 0\<rparr>) = 16"
      using assms by simp
    have b: "frag_size (st\<lparr>frag_size := 2, over := 0\<rparr>) = 2 * 1"
      by simp
    have c: "(1::int) = 2 ^ 0" "(0::nat) < 4"
      by simp_all
    show ?thesis
      unfolding next_pass_def by (rule view_frag_unfold [OF a b c])
  qed
  also have "\<dots> = next_pass 2 xxs yys xxe yye st \<bind>
      (\<lambda>s. next_pass 1 xxs yys xxe yye s \<bind> (\<lambda>s. Some (s\<lparr>frag_size := 0, over := 0\<rparr>)))"
  proof (rule Option.bind_cong [OF refl])
    fix s assume "next_pass 2 xxs yys xxe yye st = Some s"
    then have "step s = 16"
      using assms by (intro next_pass_step [of 2 xxs yys xxe yye st s 1]) simp_all
    then show "view_frag xxs yys xxe yye (s\<lparr>frag_size := 1, over := 0\<rparr>) =
        next_pass 1 xxs yys xxe yye s \<bind> (\<lambda>s. Some (s\<lparr>frag_size := 0, over := 0\<rparr>))"
      by (rule passes_from_1)
  qed
  finally show ?thesis
    by (simp only: Option.bind_assoc)
qed

lemma passes_from_4:
  assumes "step st = 16"
  shows "view_frag xxs yys xxe yye (st\<lparr>frag_size := 4, over := 0\<rparr>) =
         next_pass 4 xxs yys xxe yye st \<bind> next_pass 2 xxs yys xxe yye
           \<bind> next_pass 1 xxs yys xxe yye \<bind> (\<lambda>s. Some (s\<lparr>frag_size := 0, over := 0\<rparr>))"
proof -
  have "view_frag xxs yys xxe yye (st\<lparr>frag_size := 4, over := 0\<rparr>) =
        next_pass 4 xxs yys xxe yye st \<bind>
          (\<lambda>s. view_frag xxs yys xxe yye (s\<lparr>frag_size := 2, over := 0\<rparr>))"
  proof -
    have a: "step (st\<lparr>frag_size := 4, over := 0\<rparr>) = 16"
      using assms by simp
    have b: "frag_size (st\<lparr>frag_size := 4, over := 0\<rparr>) = 2 * 2"
      by simp
    have c: "(2::int) = 2 ^ 1" "(1::nat) < 4"
      by simp_all
    show ?thesis
      unfolding next_pass_def by (rule view_frag_unfold [OF a b c])
  qed
  also have "\<dots> = next_pass 4 xxs yys xxe yye st \<bind>
      (\<lambda>s. next_pass 2 xxs yys xxe yye s \<bind> next_pass 1 xxs yys xxe yye
             \<bind> (\<lambda>s. Some (s\<lparr>frag_size := 0, over := 0\<rparr>)))"
  proof (rule Option.bind_cong [OF refl])
    fix s assume "next_pass 4 xxs yys xxe yye st = Some s"
    then have "step s = 16"
      using assms by (intro next_pass_step [of 4 xxs yys xxe yye st s 2]) simp_all
    then show "view_frag xxs yys xxe yye (s\<lparr>frag_size := 2, over := 0\<rparr>) =
        next_pass 2 xxs yys xxe yye s \<bind> next_pass 1 xxs yys xxe yye
          \<bind> (\<lambda>s. Some (s\<lparr>frag_size := 0, over := 0\<rparr>))"
      by (rule passes_from_2)
  qed
  finally show ?thesis
    by (simp only: Option.bind_assoc)
qed

lemma passes_from_8:
  assumes "step st = 16"
  shows "view_frag xxs yys xxe yye (st\<lparr>frag_size := 8, over := 0\<rparr>) =
         next_pass 8 xxs yys xxe yye st \<bind> next_pass 4 xxs yys xxe yye
           \<bind> next_pass 2 xxs yys xxe yye \<bind> next_pass 1 xxs yys xxe yye
           \<bind> (\<lambda>s. Some (s\<lparr>frag_size := 0, over := 0\<rparr>))"
proof -
  have "view_frag xxs yys xxe yye (st\<lparr>frag_size := 8, over := 0\<rparr>) =
        next_pass 8 xxs yys xxe yye st \<bind>
          (\<lambda>s. view_frag xxs yys xxe yye (s\<lparr>frag_size := 4, over := 0\<rparr>))"
  proof -
    have a: "step (st\<lparr>frag_size := 8, over := 0\<rparr>) = 16"
      using assms by simp
    have b: "frag_size (st\<lparr>frag_size := 8, over := 0\<rparr>) = 2 * 4"
      by simp
    have c: "(4::int) = 2 ^ 2" "(2::nat) < 4"
      by simp_all
    show ?thesis
      unfolding next_pass_def by (rule view_frag_unfold [OF a b c])
  qed
  also have "\<dots> = next_pass 8 xxs yys xxe yye st \<bind>
      (\<lambda>s. next_pass 4 xxs yys xxe yye s \<bind> next_pass 2 xxs yys xxe yye
             \<bind> next_pass 1 xxs yys xxe yye \<bind> (\<lambda>s. Some (s\<lparr>frag_size := 0, over := 0\<rparr>)))"
  proof (rule Option.bind_cong [OF refl])
    fix s assume "next_pass 8 xxs yys xxe yye st = Some s"
    then have "step s = 16"
      using assms by (intro next_pass_step [of 8 xxs yys xxe yye st s 3]) simp_all
    then show "view_frag xxs yys xxe yye (s\<lparr>frag_size := 4, over := 0\<rparr>) =
        next_pass 4 xxs yys xxe yye s \<bind> next_pass 2 xxs yys xxe yye
          \<bind> next_pass 1 xxs yys xxe yye
          \<bind> (\<lambda>s. Some (s\<lparr>frag_size := 0, over := 0\<rparr>))"
      by (rule passes_from_4)
  qed
  finally show ?thesis
    by (simp only: Option.bind_assoc)
qed

text \<open>The five passes of \<^verbatim>\<open>view\<close>, written out.\<close>

lemma view_unrolled:
  "view xxs yys xxe yye st =
     first_pass xxs yys xxe yye st \<bind> next_pass 8 xxs yys xxe yye
       \<bind> next_pass 4 xxs yys xxe yye \<bind> next_pass 2 xxs yys xxe yye
       \<bind> next_pass 1 xxs yys xxe yye \<bind> (\<lambda>s. Some (s\<lparr>frag_size := 0, over := 0\<rparr>))"
proof -
  define s0 where "s0 = st\<lparr>over := 1, step := 16, frag_size := 16\<rparr>"
  have h0: "step s0 = 16" "frag_size s0 = 2 ^ 4" "(4::nat) \<le> 4"
    by (simp_all add: s0_def)
  have "view xxs yys xxe yye st = view_frag xxs yys xxe yye s0"
    by (simp add: view_def Let_def s0_def)
  also have "\<dots> = first_pass xxs yys xxe yye st \<bind>
      (\<lambda>s. view_frag xxs yys xxe yye (s\<lparr>frag_size := 8, over := 0\<rparr>))"
  proof -
    have b: "frag_size s0 = 2 * 8"
      by (simp add: s0_def)
    have c: "(8::int) = 2 ^ 3" "(3::nat) < 4"
      by simp_all
    have "view_frag xxs yys xxe yye s0 = view_y yys xxs xxe yye s0 \<bind>
        (\<lambda>s. view_frag xxs yys xxe yye (s\<lparr>frag_size := 8, over := 0\<rparr>))"
      by (rule view_frag_unfold [OF h0(1) b c])
    then show ?thesis
      by (simp add: first_pass_def s0_def)
  qed
  also have "\<dots> = first_pass xxs yys xxe yye st \<bind>
      (\<lambda>s. next_pass 8 xxs yys xxe yye s \<bind> next_pass 4 xxs yys xxe yye
             \<bind> next_pass 2 xxs yys xxe yye \<bind> next_pass 1 xxs yys xxe yye
             \<bind> (\<lambda>s. Some (s\<lparr>frag_size := 0, over := 0\<rparr>)))"
  proof (rule Option.bind_cong [OF refl])
    fix s assume "first_pass xxs yys xxe yye st = Some s"
    then have "step s = 16"
      using h0 by (intro view_y_step [of yys xxs xxe yye s0 s 4]) (simp_all add: first_pass_def s0_def)
    then show "view_frag xxs yys xxe yye (s\<lparr>frag_size := 8, over := 0\<rparr>) =
        next_pass 8 xxs yys xxe yye s \<bind> next_pass 4 xxs yys xxe yye
          \<bind> next_pass 2 xxs yys xxe yye \<bind> next_pass 1 xxs yys xxe yye
          \<bind> (\<lambda>s. Some (s\<lparr>frag_size := 0, over := 0\<rparr>))"
      by (rule passes_from_8)
  qed
  finally show ?thesis
    by (simp only: Option.bind_assoc)
qed

lemma first_pass_pixel:
  "\<exists>s. first_pass xxs yys xxe yye st = Some s \<and> reads s = reads st
       \<and> (xxs \<le> px \<and> px < xxe \<and> yys \<le> py \<and> py < yye \<longrightarrow>
            screen s px py = pixel_colour st (orig 16 xxs px) (orig 16 yys py))"
proof -
  define s0 where "s0 = st\<lparr>over := 1, step := 16, frag_size := 16\<rparr>"
  have h: "step s0 = 16" "frag_size s0 = 2 ^ 4" "(4::nat) \<le> 4" "16 dvd (yys - yys)"
    "(4::nat) = 4 \<or> tact s0 = (\<lambda>_. 0)"
    by (simp_all add: s0_def)
  obtain s where
    r: "view_y yys xxs xxe yye s0 = Some s" "(4::nat) = 4 \<longrightarrow> reads s = reads s0"
       "screen s px py =
          (if xxs \<le> px \<and> orig 16 xxs px < xxe \<and> yys \<le> py \<and> orig 16 yys py < yye
           then pass_colour xxs yys s0 px py else screen s0 px py)"
    using screen_view_y [OF h, of xxs xxe yye px py] by blast
  have pc: "pass_colour xxs yys s0 px py = pixel_colour st (orig 16 xxs px) (orig 16 yys py)"
    by (simp add: pass_colour_def paints_def s0_def pixel_colour_def)
  have "orig 16 xxs px \<le> px" "orig 16 yys py \<le> py"
    by (simp_all add: orig_bounds(1))
  then have "screen s px py = pixel_colour st (orig 16 xxs px) (orig 16 yys py)"
    if "xxs \<le> px \<and> px < xxe \<and> yys \<le> py \<and> py < yye"
    using that r(3) pc by simp
  moreover have "first_pass xxs yys xxe yye st = Some s"
    using r(1) by (simp add: first_pass_def s0_def)
  moreover have "reads s = reads st"
    using r(2) by (simp add: s0_def)
  ultimately show ?thesis
    by blast
qed

lemma view_first_then_rest:
  "view xxs yys xxe yye st =
     first_pass xxs yys xxe yye st \<bind>
       (\<lambda>s. view_frag xxs yys xxe yye (s\<lparr>frag_size := 8, over := 0\<rparr>))"
proof -
  define s0 where "s0 = st\<lparr>over := 1, step := 16, frag_size := 16\<rparr>"
  have a: "step s0 = 16" and b: "frag_size s0 = 2 * 8"
    by (simp_all add: s0_def)
  have c: "(8::int) = 2 ^ 3" "(3::nat) < 4"
    by simp_all
  have "view_frag xxs yys xxe yye s0 = view_y yys xxs xxe yye s0 \<bind>
      (\<lambda>s. view_frag xxs yys xxe yye (s\<lparr>frag_size := 8, over := 0\<rparr>))"
    by (rule view_frag_unfold [OF a b c])
  then show ?thesis
    by (simp add: view_def Let_def first_pass_def s0_def)
qed

lemma recursor_cancelled:
  "l \<noteq> frag_size st \<Longrightarrow> tact st (reads st) \<noteq> 0 \<Longrightarrow>
   recursor x y l st = Some (st\<lparr>reads := Suc (reads st)\<rparr>)"
  by (subst recursor.simps) (simp add: read_tact_def Let_def)

lemma recursor_terminal_rule:
  "recursor x y (frag_size st) st =
     Some (if paints (over st) (frag_size st) x y
           then rectfill x y (x + frag_size st - 1) (y + frag_size st - 1) (pixel_colour st x y) st
           else st)"
  by (simp add: recursor_terminal terminal_def)

lemma recursor_keeps_flags:
  assumes "0 < frag_size st"
  shows "\<exists>st'. recursor x y (frag_size st * 2 ^ k) st = Some st'
           \<and> over st' = over st \<and> frag_size st' = frag_size st"
proof -
  have "env (recursor_depth k x y st) = env st"
    by (rule env_recursor_depth)
  then have "over (recursor_depth k x y st) = over st"
    "frag_size (recursor_depth k x y st) = frag_size st"
    by (simp_all add: env_def)
  then show ?thesis
    using recursor_levels [OF assms, of x y k] by simp
qed

text \<open>
  The display calls of one pass, counted. A terminal call adds its fill when \<open>paints\<close>
  holds and nothing otherwise; a call above it adds what its four quarters add, or
  nothing when the timer has ticked; a row adds what its tiles add, and a pass what its
  rows add.
\<close>

lemma grid_fill_cong: "env s = env t \<Longrightarrow> grid_fill x0 y0 s c = grid_fill x0 y0 t c"
  by (cases c) (simp_all add: env_def pixel_colour_def)

lemma dvd_in_range_eq:
  assumes "0 < f" "f dvd (u - x0)" "f dvd (x - x0)" "x \<le> u" "u < x + (f::int)"
  shows "u = x"
proof -
  have "f dvd (u - x0) - (x - x0)"
    using assms(2,3) by (rule dvd_diff)
  then have "f dvd (u - x)"
    by simp
  then have "(u - x) mod f = 0"
    by simp
  moreover have "(u - x) mod f = u - x"
    using assms(4,5) by simp
  ultimately show ?thesis
    by simp
qed

lemma terminal_want:
  assumes "0 < frag_size st" "frag_size st dvd (x - x0)" "frag_size st dvd (y - y0)"
  shows "(paints (over st) (frag_size st) x y
          \<and> Rectfill x y (x + frag_size st - 1) (y + frag_size st - 1) (pixel_colour st x y) = c)
         = (grid_fill x0 y0 st c \<and> x \<le> call_x c \<and> call_x c < x + frag_size st
            \<and> y \<le> call_y c \<and> call_y c < y + frag_size st)"
proof (cases c)
  case (Rectfill x1 y1 x2 y2 col)
  have ex: "x1 = x" if "frag_size st dvd (x1 - x0)" "x \<le> x1" "x1 < x + frag_size st"
    using assms(1) that(1) assms(2) that(2,3) by (rule dvd_in_range_eq)
  have ey: "y1 = y" if "frag_size st dvd (y1 - y0)" "y \<le> y1" "y1 < y + frag_size st"
    using assms(1) that(1) assms(3) that(2,3) by (rule dvd_in_range_eq)
  show ?thesis
    using assms ex ey by (auto simp: Rectfill)
qed simp_all

lemma count_terminal:
  assumes "0 < frag_size st" "frag_size st dvd (x - x0)" "frag_size st dvd (y - y0)"
  shows "count_list (gfx (terminal x y st)) c =
         count_list (gfx st) c
         + of_bool (grid_fill x0 y0 st c \<and> x \<le> call_x c \<and> call_x c < x + frag_size st
                    \<and> y \<le> call_y c \<and> call_y c < y + frag_size st)"
proof -
  have "count_list (gfx (terminal x y st)) c =
        count_list (gfx st) c
        + of_bool (paints (over st) (frag_size st) x y
            \<and> Rectfill x y (x + frag_size st - 1) (y + frag_size st - 1) (pixel_colour st x y) = c)"
    by (simp add: terminal_def rectfill_def)
  then show ?thesis
    by (simp only: terminal_want [OF assms])
qed

lemma count_recursor_depth:
  assumes "frag_size st = 2 ^ m" "2 ^ m dvd (x - x0)" "2 ^ m dvd (y - y0)"
  shows "count_list (gfx st) c \<le> count_list (gfx (recursor_depth k x y st)) c
       \<and> count_list (gfx (recursor_depth k x y st)) c \<le>
           count_list (gfx st) c
           + of_bool (grid_fill x0 y0 st c \<and> x \<le> call_x c \<and> call_x c < x + 2 ^ (m + k)
                      \<and> y \<le> call_y c \<and> call_y c < y + 2 ^ (m + k))
       \<and> (k = 0 \<or> tact st = (\<lambda>_. 0) \<longrightarrow>
           count_list (gfx (recursor_depth k x y st)) c =
             count_list (gfx st) c
             + of_bool (grid_fill x0 y0 st c \<and> x \<le> call_x c \<and> call_x c < x + 2 ^ (m + k)
                        \<and> y \<le> call_y c \<and> call_y c < y + 2 ^ (m + k)))"
  using assms
proof (induction k arbitrary: x y st)
  case 0
  have "0 < frag_size st"
    using "0.prems"(1) by simp
  then show ?case
    using count_terminal [of st x x0 y y0 c] "0.prems" by simp
next
  case (Suc k)
  define l where "l = (2::int) ^ (m + k)"
  define s0 where "s0 = st\<lparr>reads := Suc (reads st)\<rparr>"
  define s1 where "s1 = recursor_depth k x y s0"
  define s2 where "s2 = recursor_depth k (x + l) y s1"
  define s3 where "s3 = recursor_depth k (x + l) (y + l) s2"
  define s4 where "s4 = recursor_depth k x (y + l) s3"
  define G where "G = grid_fill x0 y0 st c"
  define u where "u = call_x c"
  define v where "v = call_y c"
  have lpos: "0 < l"
    by (simp add: l_def)
  have ldvd: "2 ^ m dvd l"
    by (simp add: l_def power_add)
  have l2: "(2::int) ^ (m + Suc k) = 2 * l"
    by (simp add: l_def)
  have fl: "frag_size st * 2 ^ k = l"
    using Suc.prems(1) by (simp add: l_def power_add)
  have e0: "env s0 = env st" "gfx s0 = gfx st"
    by (simp_all add: s0_def env_def)
  have e1: "env s1 = env st"
    by (simp add: s1_def env_recursor_depth e0)
  have e2: "env s2 = env st"
    by (simp add: s2_def env_recursor_depth e1)
  have e3: "env s3 = env st"
    by (simp add: s3_def env_recursor_depth e2)
  have fs: "frag_size s = 2 ^ m" if "env s = env st" for s
    using that Suc.prems(1) env_frag_size [of s st] by simp
  have gf: "grid_fill x0 y0 s c = G" if "env s = env st" for s
    unfolding G_def using that by (rule grid_fill_cong)
  have "x + l - x0 = (x - x0) + l" "y + l - y0 = (y - y0) + l"
    by simp_all
  then have dx: "2 ^ m dvd (x + l - x0)" and dy: "2 ^ m dvd (y + l - y0)"
    using Suc.prems(2,3) ldvd by (simp_all only: dvd_add)
  note px = Suc.prems(2) and py = Suc.prems(3)
  have c1: "count_list (gfx s0) c \<le> count_list (gfx s1) c
      \<and> count_list (gfx s1) c \<le> count_list (gfx s0) c
          + of_bool (G \<and> x \<le> u \<and> u < x + l \<and> y \<le> v \<and> v < y + l)
      \<and> (k = 0 \<or> tact s0 = (\<lambda>_. 0) \<longrightarrow> count_list (gfx s1) c = count_list (gfx s0) c
          + of_bool (G \<and> x \<le> u \<and> u < x + l \<and> y \<le> v \<and> v < y + l))"
    using Suc.IH [OF fs [OF e0(1)] px py] unfolding s1_def l_def u_def v_def gf [OF e0(1)] .
  have c2: "count_list (gfx s1) c \<le> count_list (gfx s2) c
      \<and> count_list (gfx s2) c \<le> count_list (gfx s1) c
          + of_bool (G \<and> x + l \<le> u \<and> u < x + l + l \<and> y \<le> v \<and> v < y + l)
      \<and> (k = 0 \<or> tact s1 = (\<lambda>_. 0) \<longrightarrow> count_list (gfx s2) c = count_list (gfx s1) c
          + of_bool (G \<and> x + l \<le> u \<and> u < x + l + l \<and> y \<le> v \<and> v < y + l))"
    using Suc.IH [OF fs [OF e1] dx py] unfolding s2_def l_def u_def v_def gf [OF e1] .
  have c3: "count_list (gfx s2) c \<le> count_list (gfx s3) c
      \<and> count_list (gfx s3) c \<le> count_list (gfx s2) c
          + of_bool (G \<and> x + l \<le> u \<and> u < x + l + l \<and> y + l \<le> v \<and> v < y + l + l)
      \<and> (k = 0 \<or> tact s2 = (\<lambda>_. 0) \<longrightarrow> count_list (gfx s3) c = count_list (gfx s2) c
          + of_bool (G \<and> x + l \<le> u \<and> u < x + l + l \<and> y + l \<le> v \<and> v < y + l + l))"
    using Suc.IH [OF fs [OF e2] dx dy] unfolding s3_def l_def u_def v_def gf [OF e2] .
  have c4: "count_list (gfx s3) c \<le> count_list (gfx s4) c
      \<and> count_list (gfx s4) c \<le> count_list (gfx s3) c
          + of_bool (G \<and> x \<le> u \<and> u < x + l \<and> y + l \<le> v \<and> v < y + l + l)
      \<and> (k = 0 \<or> tact s3 = (\<lambda>_. 0) \<longrightarrow> count_list (gfx s4) c = count_list (gfx s3) c
          + of_bool (G \<and> x \<le> u \<and> u < x + l \<and> y + l \<le> v \<and> v < y + l + l))"
    using Suc.IH [OF fs [OF e3] px dy] unfolding s4_def l_def u_def v_def gf [OF e3] .
  have tq: "tact s0 = tact st" "tact s1 = tact st" "tact s2 = tact st" "tact s3 = tact st"
    using e0(1) e1 e2 e3 by (simp_all add: env_def)
  define W where "W = (G \<and> x \<le> u \<and> u < x + 2 * l \<and> y \<le> v \<and> v < y + 2 * l)"
  define a1 :: nat where "a1 = of_bool (G \<and> x \<le> u \<and> u < x + l \<and> y \<le> v \<and> v < y + l)"
  define a2 :: nat where
    "a2 = of_bool (G \<and> x + l \<le> u \<and> u < x + l + l \<and> y \<le> v \<and> v < y + l)"
  define a3 :: nat where
    "a3 = of_bool (G \<and> x + l \<le> u \<and> u < x + l + l \<and> y + l \<le> v \<and> v < y + l + l)"
  define a4 :: nat where
    "a4 = of_bool (G \<and> x \<le> u \<and> u < x + l \<and> y + l \<le> v \<and> v < y + l + l)"
  have parts: "a1 + a2 + a3 + a4 = of_bool W"
  proof (cases G)
    case False
    then show ?thesis
      by (simp add: a1_def a2_def a3_def a4_def W_def)
  next
    case True
    show ?thesis
    proof (cases "u < x + l")
      case ul: True
      show ?thesis
      proof (cases "v < y + l")
        case True
        then show ?thesis
          using ul lpos \<open>G\<close> by (auto simp: a1_def a2_def a3_def a4_def W_def)
      next
        case False
        then show ?thesis
          using ul lpos \<open>G\<close> by (auto simp: a1_def a2_def a3_def a4_def W_def)
      qed
    next
      case ur: False
      show ?thesis
      proof (cases "v < y + l")
        case True
        then show ?thesis
          using ur lpos \<open>G\<close> by (auto simp: a1_def a2_def a3_def a4_def W_def)
      next
        case False
        then show ?thesis
          using ur lpos \<open>G\<close> by (auto simp: a1_def a2_def a3_def a4_def W_def)
      qed
    qed
  qed
  have lower: "count_list (gfx st) c \<le> count_list (gfx s4) c"
    using c1 c2 c3 c4 e0(2) by simp
  have "count_list (gfx s4) c \<le> count_list (gfx st) c + (a1 + a2 + a3 + a4)"
    using c1 c2 c3 c4 e0(2) unfolding a1_def [symmetric] a2_def [symmetric] a3_def [symmetric]
      a4_def [symmetric] by simp
  then have upper: "count_list (gfx s4) c \<le> count_list (gfx st) c + of_bool W"
    by (simp only: parts)
  have exact: "count_list (gfx s4) c = count_list (gfx st) c + of_bool W"
    if "tact st = (\<lambda>_. 0)"
  proof -
    have "count_list (gfx s4) c = count_list (gfx st) c + (a1 + a2 + a3 + a4)"
      using c1 c2 c3 c4 e0(2) that unfolding a1_def [symmetric] a2_def [symmetric]
        a3_def [symmetric] a4_def [symmetric] tq by simp
    then show ?thesis
      by (simp only: parts)
  qed
  show ?case
  proof (cases "tact st (reads st) = 0")
    case True
    then have res: "recursor_depth (Suc k) x y st = s4"
      by (simp add: read_tact_def Let_def fl s4_def s3_def s2_def s1_def s0_def)
    show ?thesis
      unfolding res l2 using lower upper exact unfolding W_def u_def v_def G_def by simp
  next
    case False
    then have res: "recursor_depth (Suc k) x y st = s0"
      by (simp add: read_tact_def s0_def)
    have nq: "tact st \<noteq> (\<lambda>_. 0)"
      using False by auto
    show ?thesis
      unfolding res using nq by (simp add: e0(2))
  qed
qed


lemma count_view_x:
  assumes "step st = 16" "frag_size st = 2 ^ m" "m \<le> 4"
    "16 dvd (x - x0)" "16 dvd (y - y0)"
  shows "\<exists>st'. view_x x y xxe st = Some st' \<and> env st' = env st
           \<and> count_list (gfx st) c \<le> count_list (gfx st') c
           \<and> count_list (gfx st') c \<le>
               count_list (gfx st) c
               + of_bool (grid_fill x0 y0 st c \<and> x \<le> call_x c \<and> orig 16 x0 (call_x c) < xxe
                          \<and> y \<le> call_y c \<and> call_y c < y + 16)
           \<and> (m = 4 \<or> tact st = (\<lambda>_. 0) \<longrightarrow>
               count_list (gfx st') c =
                 count_list (gfx st) c
                 + of_bool (grid_fill x0 y0 st c \<and> x \<le> call_x c
                            \<and> orig 16 x0 (call_x c) < xxe
                            \<and> y \<le> call_y c \<and> call_y c < y + 16))"
  using assms
proof (induction "nat (xxe - x)" arbitrary: x st rule: less_induct)
  case less
  define G where "G = grid_fill x0 y0 st c"
  define u where "u = call_x c"
  define v where "v = call_y c"
  show ?case
  proof (cases "x < xxe")
    case False
    then have vw: "view_x x y xxe st = Some st"
      by (subst view_x.simps) simp
    have "x \<le> orig 16 x0 (call_x c)" if "x \<le> call_x c"
      using that less.prems(4) by (intro orig_ge) simp_all
    then have "\<not> (x \<le> call_x c \<and> orig 16 x0 (call_x c) < xxe)"
      using False by auto
    then show ?thesis
      using vw by auto
  next
    case True
    define s1 where "s1 = recursor_depth (4 - m) x y st"
    have "(2::int) ^ m * 2 ^ (4 - m) = 2 ^ (m + (4 - m))"
      by (simp only: power_add)
    then have sz: "frag_size st * 2 ^ (4 - m) = step st"
      using less.prems(1,2,3) by simp
    have pos: "0 < frag_size st"
      using less.prems(2) by simp
    have r: "recursor x y (step st) st = Some s1"
      using recursor_levels [OF pos, of x y "4 - m"] sz by (simp add: s1_def)
    have e1: "env s1 = env st"
      by (simp add: s1_def env_recursor_depth)
    have "(2::int) ^ m dvd 2 ^ 4"
      using less.prems(3) by (rule le_imp_power_dvd)
    then have md: "2 ^ m dvd (16::int)"
      by simp
    have mx: "2 ^ m dvd (x - x0)" and my: "2 ^ m dvd (y - y0)"
      using md less.prems(4,5) by (blast intro: dvd_trans)+
    have p16: "(2::int) ^ (m + (4 - m)) = 16"
      using less.prems(3) by simp
    have k0: "(4 - m = 0) = (m = 4)"
      using less.prems(3) by auto
    define a1 :: nat where
      "a1 = of_bool (G \<and> x \<le> u \<and> u < x + 16 \<and> y \<le> v \<and> v < y + 16)"
    have c1: "count_list (gfx st) c \<le> count_list (gfx s1) c
        \<and> count_list (gfx s1) c \<le> count_list (gfx st) c + a1
        \<and> (m = 4 \<or> tact st = (\<lambda>_. 0) \<longrightarrow>
             count_list (gfx s1) c = count_list (gfx st) c + a1)"
      using count_recursor_depth [OF less.prems(2) mx my, of c "4 - m"]
      unfolding p16 k0 s1_def [symmetric] G_def [symmetric] u_def [symmetric] v_def [symmetric]
        a1_def [symmetric] .
    have st1: "step s1 = 16" "frag_size s1 = 2 ^ m"
      using e1 less.prems(1,2) env_step [of s1 st] env_frag_size [of s1 st] by simp_all
    have t1: "tact s1 = tact st"
      using e1 by (rule env_tact)
    have g1: "grid_fill x0 y0 s1 c = G"
      unfolding G_def using e1 by (rule grid_fill_cong)
    have "x + 16 - x0 = (x - x0) + 16"
      by simp
    then have d16: "16 dvd (x + 16 - x0)"
      using less.prems(4) by (simp only: dvd_add dvd_refl)
    have dec: "nat (xxe - (x + 16)) < nat (xxe - x)"
      using True by simp
    define a2 :: nat where
      "a2 = of_bool (G \<and> x + 16 \<le> u \<and> orig 16 x0 u < xxe \<and> y \<le> v \<and> v < y + 16)"
    obtain st' where
      vw: "view_x (x + 16) y xxe s1 = Some st'" "env st' = env s1"
        and c2: "count_list (gfx s1) c \<le> count_list (gfx st') c
          \<and> count_list (gfx st') c \<le> count_list (gfx s1) c + a2
          \<and> (m = 4 \<or> tact st = (\<lambda>_. 0) \<longrightarrow>
               count_list (gfx st') c = count_list (gfx s1) c + a2)"
      using less.hyps [OF dec st1 less.prems(3) d16 less.prems(5)]
      unfolding g1 t1 u_def [symmetric] v_def [symmetric] a2_def [symmetric] by blast
    have whole: "view_x x y xxe st = Some st'"
      using True r vw(1) st1(1) by (subst view_x.simps) simp
    have intile: "orig 16 x0 u = x" if "x \<le> u" "u < x + 16"
      using that less.prems(4) by (intro orig_in_block) simp_all
    define W where
      "W = (G \<and> x \<le> u \<and> orig 16 x0 u < xxe \<and> y \<le> v \<and> v < y + 16)"
    have parts: "a1 + a2 = of_bool W"
    proof (cases "x \<le> u \<and> u < x + 16")
      case True
      then have "orig 16 x0 u < xxe"
        using intile \<open>x < xxe\<close> by simp
      then show ?thesis
        using True by (auto simp: a1_def a2_def W_def)
    next
      case False
      then show ?thesis
        by (auto simp: a1_def a2_def W_def)
    qed
    have lower: "count_list (gfx st) c \<le> count_list (gfx st') c"
      using c1 c2 by simp
    have "count_list (gfx st') c \<le> count_list (gfx st) c + (a1 + a2)"
      using c1 c2 by simp
    then have upper: "count_list (gfx st') c \<le> count_list (gfx st) c + of_bool W"
      by (simp only: parts)
    have exact: "count_list (gfx st') c = count_list (gfx st) c + of_bool W"
      if "m = 4 \<or> tact st = (\<lambda>_. 0)"
    proof -
      have "count_list (gfx st') c = count_list (gfx st) c + (a1 + a2)"
        using c1 c2 that by simp
      then show ?thesis
        by (simp only: parts)
    qed
    have ee: "env st' = env st"
      using vw(2) e1 by simp
    show ?thesis
      using whole ee lower upper exact unfolding W_def u_def v_def G_def by simp
  qed
qed

lemma count_view_y:
  assumes "step st = 16" "frag_size st = 2 ^ m" "m \<le> 4" "16 dvd (y - y0)"
  shows "\<exists>st'. view_y y xxs xxe yye st = Some st' \<and> env st' = env st
           \<and> count_list (gfx st) c \<le> count_list (gfx st') c
           \<and> count_list (gfx st') c \<le>
               count_list (gfx st) c
               + of_bool (grid_fill xxs y0 st c \<and> xxs \<le> call_x c
                          \<and> orig 16 xxs (call_x c) < xxe
                          \<and> y \<le> call_y c \<and> orig 16 y0 (call_y c) < yye)
           \<and> (m = 4 \<or> tact st = (\<lambda>_. 0) \<longrightarrow>
               count_list (gfx st') c =
                 count_list (gfx st) c
                 + of_bool (grid_fill xxs y0 st c \<and> xxs \<le> call_x c
                            \<and> orig 16 xxs (call_x c) < xxe
                            \<and> y \<le> call_y c \<and> orig 16 y0 (call_y c) < yye))"
  using assms
proof (induction "nat (yye - y)" arbitrary: y st rule: less_induct)
  case less
  define G where "G = grid_fill xxs y0 st c"
  define u where "u = call_x c"
  define v where "v = call_y c"
  show ?case
  proof (cases "y < yye")
    case False
    then have vw: "view_y y xxs xxe yye st = Some st"
      by (subst view_y.simps) simp
    have "y \<le> orig 16 y0 (call_y c)" if "y \<le> call_y c"
      using that less.prems(4) by (intro orig_ge) simp_all
    then have "\<not> (y \<le> call_y c \<and> orig 16 y0 (call_y c) < yye)"
      using False by auto
    then show ?thesis
      using vw by auto
  next
    case True
    have x0: "16 dvd (xxs - xxs)"
      by simp
    define a1 :: nat where
      "a1 = of_bool (G \<and> xxs \<le> u \<and> orig 16 xxs u < xxe \<and> y \<le> v \<and> v < y + 16)"
    obtain s1 where
      r: "view_x xxs y xxe st = Some s1" "env s1 = env st"
        and c1: "count_list (gfx st) c \<le> count_list (gfx s1) c
          \<and> count_list (gfx s1) c \<le> count_list (gfx st) c + a1
          \<and> (m = 4 \<or> tact st = (\<lambda>_. 0) \<longrightarrow>
               count_list (gfx s1) c = count_list (gfx st) c + a1)"
      using count_view_x [OF less.prems(1,2,3) x0 less.prems(4), of xxe c]
      unfolding G_def [symmetric] u_def [symmetric] v_def [symmetric] a1_def [symmetric]
      by blast
    have st1: "step s1 = 16" "frag_size s1 = 2 ^ m"
      using r(2) less.prems(1,2) env_step [of s1 st] env_frag_size [of s1 st] by simp_all
    have t1: "tact s1 = tact st"
      using r(2) by (rule env_tact)
    have g1: "grid_fill xxs y0 s1 c = G"
      unfolding G_def using r(2) by (rule grid_fill_cong)
    have "y + 16 - y0 = (y - y0) + 16"
      by simp
    then have d16: "16 dvd (y + 16 - y0)"
      using less.prems(4) by (simp only: dvd_add dvd_refl)
    have dec: "nat (yye - (y + 16)) < nat (yye - y)"
      using True by simp
    define a2 :: nat where
      "a2 = of_bool (G \<and> xxs \<le> u \<and> orig 16 xxs u < xxe
                     \<and> y + 16 \<le> v \<and> orig 16 y0 v < yye)"
    obtain st' where
      vw: "view_y (y + 16) xxs xxe yye s1 = Some st'" "env st' = env s1"
        and c2: "count_list (gfx s1) c \<le> count_list (gfx st') c
          \<and> count_list (gfx st') c \<le> count_list (gfx s1) c + a2
          \<and> (m = 4 \<or> tact st = (\<lambda>_. 0) \<longrightarrow>
               count_list (gfx st') c = count_list (gfx s1) c + a2)"
      using less.hyps [OF dec st1 less.prems(3) d16]
      unfolding g1 t1 u_def [symmetric] v_def [symmetric] a2_def [symmetric] by blast
    have whole: "view_y y xxs xxe yye st = Some st'"
      using True r(1) vw(1) st1(1) by (subst view_y.simps) simp
    have inrow: "orig 16 y0 v = y" if "y \<le> v" "v < y + 16"
      using that less.prems(4) by (intro orig_in_block) simp_all
    define W where
      "W = (G \<and> xxs \<le> u \<and> orig 16 xxs u < xxe \<and> y \<le> v \<and> orig 16 y0 v < yye)"
    have parts: "a1 + a2 = of_bool W"
    proof (cases "y \<le> v \<and> v < y + 16")
      case True
      then have "orig 16 y0 v < yye"
        using inrow \<open>y < yye\<close> by simp
      then show ?thesis
        using True by (auto simp: a1_def a2_def W_def)
    next
      case False
      then show ?thesis
        by (auto simp: a1_def a2_def W_def)
    qed
    have lower: "count_list (gfx st) c \<le> count_list (gfx st') c"
      using c1 c2 by simp
    have "count_list (gfx st') c \<le> count_list (gfx st) c + (a1 + a2)"
      using c1 c2 by simp
    then have upper: "count_list (gfx st') c \<le> count_list (gfx st) c + of_bool W"
      by (simp only: parts)
    have exact: "count_list (gfx st') c = count_list (gfx st) c + of_bool W"
      if "m = 4 \<or> tact st = (\<lambda>_. 0)"
    proof -
      have "count_list (gfx st') c = count_list (gfx st) c + (a1 + a2)"
        using c1 c2 that by simp
      then show ?thesis
        by (simp only: parts)
    qed
    have ee: "env st' = env st"
      using vw(2) r(2) by simp
    show ?thesis
      using whole ee lower upper exact unfolding W_def u_def v_def G_def by simp
  qed
qed


lemma pass_fill_grid:
  assumes "frag_size s = 2 ^ m"
  shows "(grid_fill xxs yys s c \<and> xxs \<le> call_x c \<and> orig 16 xxs (call_x c) < xxe
          \<and> yys \<le> call_y c \<and> orig 16 yys (call_y c) < yye)
         = pass_fill xxs yys xxe yye s (over s \<noteq> 0) (2 ^ m) c"
  by (cases c) (auto simp: assms paints_dvd)

lemma pass_fill_flags:
  "pass_fill xxs yys xxe yye (st\<lparr>over := ov, step := sp, frag_size := fs\<rparr>) first f c
   = pass_fill xxs yys xxe yye st first f c"
  "pass_fill xxs yys xxe yye (st\<lparr>frag_size := fs, over := ov\<rparr>) first f c
   = pass_fill xxs yys xxe yye st first f c"
  by (cases c; simp add: pixel_colour_def)+

lemma count_first_pass:
  "\<exists>s. first_pass xxs yys xxe yye st = Some s \<and> step s = 16 \<and> frag_size s = 16 \<and> over s = 1
       \<and> count_list (gfx s) c =
           count_list (gfx st) c + of_bool (pass_fill xxs yys xxe yye st True 16 c)"
proof -
  define s0 where "s0 = st\<lparr>over := 1, step := 16, frag_size := 16\<rparr>"
  have h: "step s0 = 16" "frag_size s0 = 2 ^ 4" "(4::nat) \<le> 4" "16 dvd (yys - yys)"
    by (simp_all add: s0_def)
  have w: "(grid_fill xxs yys s0 c \<and> xxs \<le> call_x c \<and> orig 16 xxs (call_x c) < xxe
            \<and> yys \<le> call_y c \<and> orig 16 yys (call_y c) < yye)
           = pass_fill xxs yys xxe yye st True 16 c"
    using pass_fill_grid [OF h(2), of xxs yys c xxe yye]
    by (simp add: s0_def pass_fill_flags)
  obtain s where
    r: "view_y yys xxs xxe yye s0 = Some s" "env s = env s0"
       "count_list (gfx s) c =
          count_list (gfx s0) c + of_bool (pass_fill xxs yys xxe yye st True 16 c)"
    using count_view_y [OF h, of xxs xxe yye c] unfolding w by blast
  have "first_pass xxs yys xxe yye st = Some s"
    using r(1) by (simp add: first_pass_def s0_def)
  moreover have "step s = 16" "frag_size s = 16" "over s = 1"
    using r(2) env_step [of s s0] env_frag_size [of s s0] env_over [of s s0]
    by (simp_all add: s0_def)
  moreover have "count_list (gfx s) c =
      count_list (gfx st) c + of_bool (pass_fill xxs yys xxe yye st True 16 c)"
    using r(3) by (simp add: s0_def)
  ultimately show ?thesis
    by blast
qed

lemma count_next_pass:
  assumes "step st = 16" "m < 4"
  shows "\<exists>s. next_pass (2 ^ m) xxs yys xxe yye st = Some s
           \<and> step s = 16 \<and> frag_size s = 2 ^ m \<and> over s = 0
           \<and> count_list (gfx st) c \<le> count_list (gfx s) c
           \<and> count_list (gfx s) c \<le>
               count_list (gfx st) c + of_bool (pass_fill xxs yys xxe yye st False (2 ^ m) c)
           \<and> (tact st = (\<lambda>_. 0) \<longrightarrow>
               count_list (gfx s) c =
                 count_list (gfx st) c
                 + of_bool (pass_fill xxs yys xxe yye st False (2 ^ m) c))"
proof -
  define s0 where "s0 = st\<lparr>frag_size := 2 ^ m, over := 0\<rparr>"
  have h: "step s0 = 16" "frag_size s0 = 2 ^ m" "m \<le> 4" "16 dvd (yys - yys)"
    using assms by (simp_all add: s0_def)
  have w: "(grid_fill xxs yys s0 c \<and> xxs \<le> call_x c \<and> orig 16 xxs (call_x c) < xxe
            \<and> yys \<le> call_y c \<and> orig 16 yys (call_y c) < yye)
           = pass_fill xxs yys xxe yye st False (2 ^ m) c"
    using pass_fill_grid [OF h(2), of xxs yys c xxe yye]
    by (simp add: s0_def pass_fill_flags)
  have m4: "(m = 4) = False"
    using assms(2) by simp
  obtain s where
    r: "view_y yys xxs xxe yye s0 = Some s" "env s = env s0"
       "count_list (gfx s0) c \<le> count_list (gfx s) c"
       "count_list (gfx s) c \<le>
          count_list (gfx s0) c + of_bool (pass_fill xxs yys xxe yye st False (2 ^ m) c)"
       "tact s0 = (\<lambda>_. 0) \<longrightarrow> count_list (gfx s) c =
          count_list (gfx s0) c + of_bool (pass_fill xxs yys xxe yye st False (2 ^ m) c)"
    using count_view_y [OF h, of xxs xxe yye c] unfolding w m4 by auto
  have "next_pass (2 ^ m) xxs yys xxe yye st = Some s"
    using r(1) by (simp add: next_pass_def s0_def)
  moreover have "step s = 16" "frag_size s = 2 ^ m" "over s = 0"
    using r(2) h(1) env_step [of s s0] env_frag_size [of s s0] env_over [of s s0]
    by (simp_all add: s0_def)
  moreover have "count_list (gfx st) c \<le> count_list (gfx s) c"
    "count_list (gfx s) c \<le>
       count_list (gfx st) c + of_bool (pass_fill xxs yys xxe yye st False (2 ^ m) c)"
    "tact st = (\<lambda>_. 0) \<longrightarrow> count_list (gfx s) c =
       count_list (gfx st) c + of_bool (pass_fill xxs yys xxe yye st False (2 ^ m) c)"
    using r(3,4,5) by (simp_all add: s0_def)
  ultimately show ?thesis
    by blast
qed

lemma later_edge_cases:
  assumes "f \<in> {8, 4, 2, 1::int}"
  obtains m :: nat where "f = 2 ^ m" "m < 4"
proof -
  have "f = 2 ^ 3 \<or> f = 2 ^ 2 \<or> f = 2 ^ 1 \<or> f = 2 ^ 0"
    using assms by auto
  then show thesis
    using that [of 3] that [of 2] that [of 1] that [of 0] by fastforce
qed

text \<open>
  Claim C2. A run of \<^verbatim>\<open>view\<close> is the first pass, at edge 16 with \<^verbatim>\<open>over\<close> set to 1,
  followed by the passes at the edges 8, 4, 2 and 1 with \<^verbatim>\<open>over\<close> set to 0, each on
  the state the pass before it returns.

  What a pass paints is stated by counting display calls: \<open>c\<close> is any display call
  and \<open>count_list (gfx s) c\<close> is the number of times it has been made. The first pass
  returns, whatever the timer does, and it makes every fill of a block of edge 16 of
  its grid exactly once, without any condition on the origin, and no other call. A
  later pass at the edge \<open>f\<close>, started with \<^verbatim>\<open>step\<close> at 16 as the pass before it leaves
  it, returns, whatever the timer does; the only calls it makes are fills of blocks of
  edge \<open>f\<close> of its grid whose origin \<open>(x, y)\<close> has \<open>x\<close> or \<open>y\<close> not divisible by
  \<open>2 * f\<close>, and it makes none of them twice; when the timer stays at 0 it makes each
  of them exactly once. So a block whose origin has both coordinates divisible by
  \<open>2 * f\<close> is never painted in that pass, and every other block of the pass is. Each
  pass leaves \<^verbatim>\<open>step\<close> at 16 and \<^verbatim>\<open>frag_size\<close> and \<^verbatim>\<open>over\<close> at the values it has set.

  For a single call: a terminal call, one whose edge equals \<^verbatim>\<open>frag_size\<close>, fills its
  block without any condition when \<^verbatim>\<open>over\<close> is not 0; when \<^verbatim>\<open>over\<close> is 0 and the
  edge \<open>l\<close> is a power of two it fills the block if and only if \<open>x\<close> or \<open>y\<close> is not
  divisible by \<open>2 * l\<close>, and otherwise leaves the state as it is. A call at an edge
  that is \<^verbatim>\<open>frag_size\<close> doubled any number of times returns and leaves \<^verbatim>\<open>over\<close> and
  \<^verbatim>\<open>frag_size\<close> as they were.
\<close>

theorem skip_rule:
  "view xxs yys xxe yye st =
     first_pass xxs yys xxe yye st \<bind> next_pass 8 xxs yys xxe yye
       \<bind> next_pass 4 xxs yys xxe yye \<bind> next_pass 2 xxs yys xxe yye
       \<bind> next_pass 1 xxs yys xxe yye \<bind> (\<lambda>s. Some (s\<lparr>frag_size := 0, over := 0\<rparr>))
   \<and> (\<exists>s. first_pass xxs yys xxe yye st = Some s
         \<and> step s = 16 \<and> frag_size s = 16 \<and> over s = 1
         \<and> count_list (gfx s) c =
             count_list (gfx st) c + of_bool (pass_fill xxs yys xxe yye st True 16 c))
   \<and> (step st = 16 \<and> f \<in> {8, 4, 2, 1} \<longrightarrow>
        (\<exists>s. next_pass f xxs yys xxe yye st = Some s
           \<and> step s = 16 \<and> frag_size s = f \<and> over s = 0
           \<and> count_list (gfx st) c \<le> count_list (gfx s) c
           \<and> count_list (gfx s) c \<le>
               count_list (gfx st) c + of_bool (pass_fill xxs yys xxe yye st False f c)
           \<and> (tact st = (\<lambda>_. 0) \<longrightarrow>
               count_list (gfx s) c =
                 count_list (gfx st) c + of_bool (pass_fill xxs yys xxe yye st False f c))))
   \<and> (over st \<noteq> 0 \<longrightarrow>
        recursor x y (frag_size st) st =
          Some (rectfill x y (x + frag_size st - 1) (y + frag_size st - 1)
                  (pixel_colour st x y) st))
   \<and> (over st = 0 \<and> frag_size st = 2 ^ m \<longrightarrow>
        recursor x y (frag_size st) st =
          Some (if \<not> (2 * frag_size st) dvd x \<or> \<not> (2 * frag_size st) dvd y
                then rectfill x y (x + frag_size st - 1) (y + frag_size st - 1)
                       (pixel_colour st x y) st
                else st))
   \<and> (0 < frag_size st \<longrightarrow>
        (\<exists>st'. recursor x y (frag_size st * 2 ^ k) st = Some st'
           \<and> over st' = over st \<and> frag_size st' = frag_size st))"
proof (intro conjI impI)
  show "view xxs yys xxe yye st =
     first_pass xxs yys xxe yye st \<bind> next_pass 8 xxs yys xxe yye
       \<bind> next_pass 4 xxs yys xxe yye \<bind> next_pass 2 xxs yys xxe yye
       \<bind> next_pass 1 xxs yys xxe yye \<bind> (\<lambda>s. Some (s\<lparr>frag_size := 0, over := 0\<rparr>))"
    by (rule view_unrolled)
next
  show "\<exists>s. first_pass xxs yys xxe yye st = Some s
         \<and> step s = 16 \<and> frag_size s = 16 \<and> over s = 1
         \<and> count_list (gfx s) c =
             count_list (gfx st) c + of_bool (pass_fill xxs yys xxe yye st True 16 c)"
    by (rule count_first_pass)
next
  assume h: "step st = 16 \<and> f \<in> {8, 4, 2, 1}"
  then obtain n :: nat where n: "f = 2 ^ n" "n < 4"
    using later_edge_cases [of f] by blast
  have s16: "step st = 16"
    using h by simp
  show "\<exists>s. next_pass f xxs yys xxe yye st = Some s
           \<and> step s = 16 \<and> frag_size s = f \<and> over s = 0
           \<and> count_list (gfx st) c \<le> count_list (gfx s) c
           \<and> count_list (gfx s) c \<le>
               count_list (gfx st) c + of_bool (pass_fill xxs yys xxe yye st False f c)
           \<and> (tact st = (\<lambda>_. 0) \<longrightarrow>
               count_list (gfx s) c =
                 count_list (gfx st) c + of_bool (pass_fill xxs yys xxe yye st False f c))"
    unfolding n(1) by (rule count_next_pass [OF s16 n(2)])
next
  assume "over st \<noteq> 0"
  then have "paints (over st) (frag_size st) x y"
    by (simp add: paints_def)
  then show "recursor x y (frag_size st) st =
      Some (rectfill x y (x + frag_size st - 1) (y + frag_size st - 1) (pixel_colour st x y) st)"
    by (simp add: recursor_terminal_rule)
next
  assume h: "over st = 0 \<and> frag_size st = 2 ^ m"
  then have "paints (over st) (frag_size st) x y =
      (\<not> (2 * frag_size st) dvd x \<or> \<not> (2 * frag_size st) dvd y)"
    using paints_dvd [of 0 m x y] by simp
  then show "recursor x y (frag_size st) st =
      Some (if \<not> (2 * frag_size st) dvd x \<or> \<not> (2 * frag_size st) dvd y
            then rectfill x y (x + frag_size st - 1) (y + frag_size st - 1)
                   (pixel_colour st x y) st
            else st)"
    by (simp only: recursor_terminal_rule)
next
  assume "0 < frag_size st"
  then show "\<exists>st'. recursor x y (frag_size st * 2 ^ k) st = Some st'
      \<and> over st' = over st \<and> frag_size st' = frag_size st"
    by (rule recursor_keeps_flags)
qed

text \<open>
  The theorem at single calls: the first pass at the origin, the pass at edge 8 at
  \<open>(8, 0)\<close>, which is painted, and at \<open>(16, 32)\<close>, which is skipped, and a call one
  level above the edge 8. Then at whole passes over one tile of the example state: the
  first pass fills the block at the origin once, in the colour 255 of the origin; the
  pass at edge 8 fills the block at \<open>(8, 0)\<close> once, in the colour 0, and does not fill
  the block at the origin again.
\<close>

theorem skip_rule_witness:
  "over (example_state\<lparr>over := 1, frag_size := 16\<rparr>) \<noteq> 0
   \<and> recursor 0 0 16 (example_state\<lparr>over := 1, frag_size := 16\<rparr>) =
       Some (rectfill 0 0 15 15 255 (example_state\<lparr>over := 1, frag_size := 16\<rparr>))
   \<and> over (example_state\<lparr>frag_size := 8\<rparr>) = 0
   \<and> frag_size (example_state\<lparr>frag_size := 8\<rparr>) = 2 ^ 3
   \<and> recursor 8 0 8 (example_state\<lparr>frag_size := 8\<rparr>) =
       Some (rectfill 8 0 15 7 0 (example_state\<lparr>frag_size := 8\<rparr>))
   \<and> recursor 16 32 8 (example_state\<lparr>frag_size := 8\<rparr>) =
       Some (example_state\<lparr>frag_size := 8\<rparr>)
   \<and> 0 < frag_size (example_state\<lparr>frag_size := 8\<rparr>)
   \<and> map_option (\<lambda>s. (over s, frag_size s))
        (recursor 0 0 16 (example_state\<lparr>frag_size := 8\<rparr>)) = Some (0, 8)
   \<and> map_option (\<lambda>s. count_list (gfx s) (Rectfill 0 0 15 15 255))
        (first_pass 0 0 16 16 example_state) = Some 1
   \<and> step (example_state\<lparr>step := 16\<rparr>) = 16 \<and> (8::int) \<in> {8, 4, 2, 1}
   \<and> tact (example_state\<lparr>step := 16\<rparr>) = (\<lambda>_. 0)
   \<and> map_option (\<lambda>s. count_list (gfx s) (Rectfill 8 0 15 7 0))
        (next_pass 8 0 0 16 16 (example_state\<lparr>step := 16\<rparr>)) = Some 1
   \<and> map_option (\<lambda>s. count_list (gfx s) (Rectfill 0 0 7 7 255))
        (next_pass 8 0 0 16 16 (example_state\<lparr>step := 16\<rparr>)) = Some 0"
proof -
  let ?a = "example_state\<lparr>over := 1, frag_size := 16\<rparr>"
  let ?b = "example_state\<lparr>frag_size := 8\<rparr>"
  let ?e = "example_state\<lparr>step := 16\<rparr>"
  have a: "over ?a \<noteq> 0" "frag_size ?a = 16"
    by (simp_all add: example_state_def)
  have b: "over ?b = 0 \<and> frag_size ?b = 2 ^ 3" "frag_size ?b = 8" "0 < frag_size ?b"
    by (simp_all add: example_state_def)
  have e: "step ?e = 16 \<and> (8::int) \<in> {8, 4, 2, 1}" "tact ?e = (\<lambda>_. 0)"
    "gfx ?e = []" "gfx example_state = []"
    by (simp_all add: example_state_def)
  have "\<forall>k. int k < ipp \<longrightarrow> inside (orbit 0 0 (0, 0) k)"
    by (simp add: orbit_origin inside_def)
  then have m0: "mandel_iterator 0 0 = 255"
    unfolding mandel_iterator_def
    using iter_while_saturate [of 0 ipp 0 0 0 0] by (simp add: ipp_def)
  have m8: "mandel_iterator 8 0 = 0"
    by (simp add: mandel_iterator_def iter_while.simps)
  have col: "pixel_colour ?a 0 0 = 255" "pixel_colour ?b 8 0 = 0"
    "pixel_colour example_state 0 0 = 255" "pixel_colour ?e 8 0 = 0"
    "pixel_colour ?e 0 0 = 255"
    using m0 m8 by (simp_all add: pixel_colour_def example_state_def)
  have r1: "recursor 0 0 16 ?a = Some (rectfill 0 0 15 15 255 ?a)"
    using skip_rule [where st = ?a and x = 0 and y = 0] a col by simp
  have r2: "recursor 8 0 8 ?b = Some (rectfill 8 0 15 7 0 ?b)"
    using skip_rule [where st = ?b and x = 8 and y = 0 and m = 3] b col by simp
  have r3: "recursor 16 32 8 ?b = Some ?b"
    using skip_rule [where st = ?b and x = 16 and y = 32 and m = 3] b by simp
  have "\<exists>st'. recursor 0 0 (frag_size ?b * 2 ^ 1) ?b = Some st'
      \<and> over st' = over ?b \<and> frag_size st' = frag_size ?b"
    using skip_rule [where st = ?b and x = 0 and y = 0 and k = 1] b(3) by blast
  then have r4: "map_option (\<lambda>s. (over s, frag_size s)) (recursor 0 0 16 ?b) = Some (0, 8)"
    using b(1,2) by auto
  have o: "orig 16 0 0 = 0" "orig 16 0 8 = 0"
    by (simp_all add: orig_def)
  have pf1: "pass_fill 0 0 16 16 example_state True 16 (Rectfill 0 0 15 15 255)"
    using o col(3) by simp
  have pf2: "pass_fill 0 0 16 16 ?e False 8 (Rectfill 8 0 15 7 0)"
    using o col(4) by simp
  have pf3: "\<not> pass_fill 0 0 16 16 ?e False 8 (Rectfill 0 0 7 7 255)"
    by simp
  have "\<exists>s. first_pass 0 0 16 16 example_state = Some s
      \<and> step s = 16 \<and> frag_size s = 16 \<and> over s = 1
      \<and> count_list (gfx s) (Rectfill 0 0 15 15 255) =
          count_list (gfx example_state) (Rectfill 0 0 15 15 255)
          + of_bool (pass_fill 0 0 16 16 example_state True 16 (Rectfill 0 0 15 15 255))"
    using skip_rule [where st = example_state and xxs = 0 and yys = 0 and xxe = 16
        and yye = 16 and c = "Rectfill 0 0 15 15 255"] by blast
  then have p1: "map_option (\<lambda>s. count_list (gfx s) (Rectfill 0 0 15 15 255))
      (first_pass 0 0 16 16 example_state) = Some 1"
    using pf1 e(4) by auto
  have "\<exists>s. next_pass 8 0 0 16 16 ?e = Some s
      \<and> step s = 16 \<and> frag_size s = 8 \<and> over s = 0
      \<and> count_list (gfx ?e) (Rectfill 8 0 15 7 0) \<le> count_list (gfx s) (Rectfill 8 0 15 7 0)
      \<and> count_list (gfx s) (Rectfill 8 0 15 7 0) \<le>
          count_list (gfx ?e) (Rectfill 8 0 15 7 0)
          + of_bool (pass_fill 0 0 16 16 ?e False 8 (Rectfill 8 0 15 7 0))
      \<and> (tact ?e = (\<lambda>_. 0) \<longrightarrow>
          count_list (gfx s) (Rectfill 8 0 15 7 0) =
            count_list (gfx ?e) (Rectfill 8 0 15 7 0)
            + of_bool (pass_fill 0 0 16 16 ?e False 8 (Rectfill 8 0 15 7 0)))"
    using skip_rule [where st = ?e and xxs = 0 and yys = 0 and xxe = 16
        and yye = 16 and f = 8 and c = "Rectfill 8 0 15 7 0"] e(1) by blast
  then have p2: "map_option (\<lambda>s. count_list (gfx s) (Rectfill 8 0 15 7 0))
      (next_pass 8 0 0 16 16 ?e) = Some 1"
    using pf2 e(2,3) by auto
  have "\<exists>s. next_pass 8 0 0 16 16 ?e = Some s
      \<and> step s = 16 \<and> frag_size s = 8 \<and> over s = 0
      \<and> count_list (gfx ?e) (Rectfill 0 0 7 7 255) \<le> count_list (gfx s) (Rectfill 0 0 7 7 255)
      \<and> count_list (gfx s) (Rectfill 0 0 7 7 255) \<le>
          count_list (gfx ?e) (Rectfill 0 0 7 7 255)
          + of_bool (pass_fill 0 0 16 16 ?e False 8 (Rectfill 0 0 7 7 255))
      \<and> (tact ?e = (\<lambda>_. 0) \<longrightarrow>
          count_list (gfx s) (Rectfill 0 0 7 7 255) =
            count_list (gfx ?e) (Rectfill 0 0 7 7 255)
            + of_bool (pass_fill 0 0 16 16 ?e False 8 (Rectfill 0 0 7 7 255)))"
    using skip_rule [where st = ?e and xxs = 0 and yys = 0 and xxe = 16
        and yye = 16 and f = 8 and c = "Rectfill 0 0 7 7 255"] e(1) by blast
  then have p3: "map_option (\<lambda>s. count_list (gfx s) (Rectfill 0 0 7 7 255))
      (next_pass 8 0 0 16 16 ?e) = Some 0"
    using pf3 e(2,3) by auto
  show ?thesis
    using a(1) b(1,3) r1 r2 r3 r4 p1 e(1,2) p2 p3 by simp
qed

text \<open>
  Claim C8. A call of \<^verbatim>\<open>recursor\<close> that is not terminal and reads a timer value other
  than 0 returns at once: the state it returns differs from the one it was given only
  in the count of reads, so neither it nor any call below it fills a block. For every
  behaviour of the timer and every rectangle, \<^verbatim>\<open>view\<close> returns, the display calls it
  adds are fills of whole blocks of the grid, each made by one call of \<^verbatim>\<open>rectfill\<close>,
  and the screen is what these fills paint one after the other, so no block is ever
  left painted in part. A run of \<^verbatim>\<open>view\<close> does not depend on the values that
  \<^verbatim>\<open>over\<close>, \<^verbatim>\<open>step\<close> and \<^verbatim>\<open>frag_size\<close> were left with: it starts again with
  \<^verbatim>\<open>over\<close> at 1 and the edge 16.
\<close>

theorem cancel_stops_descent:
  "(l \<noteq> frag_size st \<and> tact st (reads st) \<noteq> 0 \<longrightarrow>
      recursor x y l st = Some (st\<lparr>reads := Suc (reads st)\<rparr>))
   \<and> (\<exists>st'. view xxs yys xxe yye st = Some st' \<and> fills xxs yys st st')
   \<and> view xxs yys xxe yye (st\<lparr>over := ov, step := sp, frag_size := fs\<rparr>) =
       view xxs yys xxe yye st
   \<and> view xxs yys xxe yye st =
       view_frag xxs yys xxe yye (st\<lparr>over := 1, step := 16, frag_size := 16\<rparr>)"
proof (intro conjI impI)
  assume "l \<noteq> frag_size st \<and> tact st (reads st) \<noteq> 0"
  then show "recursor x y l st = Some (st\<lparr>reads := Suc (reads st)\<rparr>)"
    by (simp add: recursor_cancelled)
next
  show "\<exists>st'. view xxs yys xxe yye st = Some st' \<and> fills xxs yys st st'"
    by (rule fills_view)
next
  show "view xxs yys xxe yye (st\<lparr>over := ov, step := sp, frag_size := fs\<rparr>) =
        view xxs yys xxe yye st"
    by (simp add: view_def Let_def)
next
  show "view xxs yys xxe yye st =
        view_frag xxs yys xxe yye (st\<lparr>over := 1, step := 16, frag_size := 16\<rparr>)"
    by (simp add: view_def Let_def)
qed

text \<open>
  The theorem at a call at edge 16 in the pass at edge 8, with the timer at 1: no call
  is recorded and the timer has been read once.
\<close>

theorem cancel_stops_descent_witness:
  "(16::int) \<noteq> frag_size (example_state\<lparr>frag_size := 8, tact := (\<lambda>_. 1)\<rparr>)
   \<and> tact (example_state\<lparr>frag_size := 8, tact := (\<lambda>_. 1)\<rparr>)
        (reads (example_state\<lparr>frag_size := 8, tact := (\<lambda>_. 1)\<rparr>)) \<noteq> 0
   \<and> map_option gfx (recursor 0 0 16 (example_state\<lparr>frag_size := 8, tact := (\<lambda>_. 1)\<rparr>)) = Some []
   \<and> map_option reads (recursor 0 0 16 (example_state\<lparr>frag_size := 8, tact := (\<lambda>_. 1)\<rparr>)) = Some 1"
proof -
  let ?s = "example_state\<lparr>frag_size := 8, tact := (\<lambda>_. 1)\<rparr>"
  have h: "16 \<noteq> frag_size ?s \<and> tact ?s (reads ?s) \<noteq> 0"
    by (simp add: example_state_def)
  then have "recursor 0 0 16 ?s = Some (?s\<lparr>reads := Suc (reads ?s)\<rparr>)"
    using cancel_stops_descent [of 16 ?s 0 0] by blast
  then show ?thesis
    using h by (simp add: example_state_def)
qed

text \<open>
  Claim C10, as the code has it. For every behaviour of the timer the first pass
  returns without a single read of the timer, and after it every pixel of the rectangle
  holds the colour evaluated at the origin of its tile of edge 16; the rest of \<^verbatim>\<open>view\<close>
  runs after it. A terminal call in any pass never reads the timer either: whether it
  fills its block is decided by the skip rule alone, so it fills the block when the rule
  says so and leaves it when the rule says so.
\<close>

theorem first_pass_ignores_cancel:
  "(xxs \<le> px \<and> px < xxe \<and> yys \<le> py \<and> py < yye \<longrightarrow>
      read_back px py (first_pass xxs yys xxe yye st) =
        Some (pixel_colour st (orig 16 xxs px) (orig 16 yys py)))
   \<and> map_option reads (first_pass xxs yys xxe yye st) = Some (reads st)
   \<and> view xxs yys xxe yye st =
       first_pass xxs yys xxe yye st \<bind>
         (\<lambda>s. view_frag xxs yys xxe yye (s\<lparr>frag_size := 8, over := 0\<rparr>))
   \<and> recursor x y (frag_size st) st =
       Some (if paints (over st) (frag_size st) x y
             then rectfill x y (x + frag_size st - 1) (y + frag_size st - 1)
                    (pixel_colour st x y) st
             else st)
   \<and> map_option reads (recursor x y (frag_size st) st) = Some (reads st)"
proof -
  obtain s where
    s: "first_pass xxs yys xxe yye st = Some s" "reads s = reads st"
       "xxs \<le> px \<and> px < xxe \<and> yys \<le> py \<and> py < yye \<longrightarrow>
          screen s px py = pixel_colour st (orig 16 xxs px) (orig 16 yys py)"
    using first_pass_pixel [of xxs yys xxe yye st px py] by blast
  have "map_option reads (recursor x y (frag_size st) st) = Some (reads st)"
    by (simp add: recursor_terminal reads_terminal)
  then show ?thesis
    using s view_first_then_rest [of xxs yys xxe yye st] recursor_terminal_rule [of x y st]
    by (simp add: read_back_def)
qed

text \<open>The theorem at a rectangle of two tiles, with a timer that reads 1 from the start.\<close>

theorem first_pass_ignores_cancel_witness:
  "(0::int) \<le> 17 \<and> (17::int) < 32 \<and> (0::int) \<le> 3 \<and> (3::int) < 16
   \<and> read_back 17 3 (first_pass 0 0 32 16 (example_state\<lparr>tact := (\<lambda>_. 1)\<rparr>)) = Some 0
   \<and> map_option reads (first_pass 0 0 32 16 (example_state\<lparr>tact := (\<lambda>_. 1)\<rparr>)) = Some 0"
proof -
  let ?s = "example_state\<lparr>tact := (\<lambda>_. 1)\<rparr>"
  have "mandel_iterator 16 0 = 0"
    by (simp add: mandel_iterator_def iter_while.simps)
  then have "pixel_colour ?s (orig 16 0 17) (orig 16 0 3) = 0"
    by (simp add: pixel_colour_def orig_def example_state_def)
  moreover have "reads ?s = 0"
    by (simp add: example_state_def)
  ultimately show ?thesis
    using first_pass_ignores_cancel [of 0 17 32 0 3 16 ?s] by simp
qed

text \<open>
  Claim C10 as it is worded ends with "a terminal block reached in any pass is always
  filled". In the pass at edge 8 the terminal call at \<open>(0, 0)\<close> records no display call,
  with the timer at 0 and with the timer at 1 alike: the skip rule leaves the block as
  the first pass painted it.
\<close>

theorem terminal_block_skipped_counterexample:
  "frag_size (example_state\<lparr>frag_size := 8\<rparr>) = 8
   \<and> map_option gfx (recursor 0 0 8 (example_state\<lparr>frag_size := 8\<rparr>)) = Some []
   \<and> map_option gfx (recursor 0 0 8 (example_state\<lparr>frag_size := 8, tact := (\<lambda>_. 1)\<rparr>)) = Some []"
proof -
  let ?a = "example_state\<lparr>frag_size := 8\<rparr>"
  let ?b = "example_state\<lparr>frag_size := 8, tact := (\<lambda>_. 1)\<rparr>"
  have np: "\<not> paints 0 8 0 0"
    by (simp add: paints_def)
  have fa: "frag_size ?a = 8" "over ?a = 0" "gfx ?a = []"
    and fb: "frag_size ?b = 8" "over ?b = 0" "gfx ?b = []"
    by (simp_all add: example_state_def)
  have "recursor 0 0 8 ?a = Some ?a"
    using recursor_terminal_rule [of 0 0 ?a] np by (simp only: fa if_False)
  moreover have "recursor 0 0 8 ?b = Some ?b"
    using recursor_terminal_rule [of 0 0 ?b] np by (simp only: fb if_False)
  ultimately show ?thesis
    using fa fb by simp
qed


subsection \<open>The orbit tracer\<close>

text \<open>
  When the radius test passes at the starting point the priming loop counts at least
  one step, so the divisor of the gradient is not 0 where the drawing loop divides.
\<close>

lemma priming_positive: "X * X + Y * Y \<le> 4 \<Longrightarrow> 1 \<le> iter_while cap p q X Y 0"
proof -
  assume inside0: "X * X + Y * Y \<le> 4"
  show ?thesis
  proof (cases "(0::int) + 1 < cap")
    case True
    have "0 + 1 \<le> iter_while cap p q (Re_Z X Y + p) (Im_Z X Y + q) (0 + 1)"
      by (rule iter_while_lower)
    with inside0 True show ?thesis
      by (subst iter_while.simps) simp
  next
    case False
    with inside0 show ?thesis
      by (subst iter_while.simps) simp
  qed
qed

text \<open>
  With the gradient switched on, the drawing loop started with the counter \<open>i\<close> on an
  orbit that leaves the radius at its iterate \<open>k\<close> draws \<open>k\<close> steps, the \<open>j\<close>-th of
  them in the colour \<^verbatim>\<open>((i+j+1)<<8)/itr\<close>.
\<close>

lemma orbit_draw_escape:
  assumes "pal_gradient st \<noteq> 0"
    "\<forall>j<k. inside (orbit (cx st) (cy st) (X, Y) j)" "\<not> inside (orbit (cx st) (cy st) (X, Y) k)"
    "i + int k < orbit_iter_limit"
  shows "fst (orbit_draw st xxs yys itr X Y sX sY i out) = i + int k
         \<and> map call_colour (snd (orbit_draw st xxs yys itr X Y sX sY i out)) =
             map call_colour out @ map (\<lambda>j. push_bit 8 (i + int j + 1) sdiv itr) [0..<k]"
  using assms(2-4)
proof (induction k arbitrary: X Y sX sY i out)
  case 0
  then have "\<not> X * X + Y * Y \<le> 4"
    by (simp add: orbit_0 inside_def)
  then show ?case
    by (subst (1 2) orbit_draw.simps) simp
next
  case (Suc k)
  have in0: "X * X + Y * Y \<le> 4"
    using Suc.prems(1) [rule_format, of 0] by (simp add: orbit_0 inside_def)
  have nxt: "qstep (cx st) (cy st) (X, Y) = (Re_Z X Y + cx st, Im_Z X Y + cy st)"
    by (simp add: qstep_def)
  have a1: "\<forall>j<k. inside (orbit (cx st) (cy st) (Re_Z X Y + cx st, Im_Z X Y + cy st) j)"
    using Suc.prems(1) by (auto simp: orbit_Suc_shift [symmetric] nxt [symmetric])
  have a2: "\<not> inside (orbit (cx st) (cy st) (Re_Z X Y + cx st, Im_Z X Y + cy st) k)"
    using Suc.prems(2) by (simp add: orbit_Suc_shift nxt)
  have a3: "(i + 1) + int k < orbit_iter_limit"
    using Suc.prems(3) by simp
  have lt: "i + 1 < orbit_iter_limit"
    using Suc.prems(3) by simp
  define col where "col = push_bit 8 (i + 1) sdiv itr"
  define call where "call =
    (if orbit_pixel st \<noteq> 0
     then Putpixel (d2i (of_int xxs + (X - xs st) / xu st))
                   (d2i (of_int yys + (Y - ys st) / yu st)) col
     else Line (d2i (of_int xxs + (sX - xs st) / xu st))
               (d2i (of_int yys + (sY - ys st) / yu st))
               (d2i (of_int xxs + (X - xs st) / xu st))
               (d2i (of_int yys + (Y - ys st) / yu st)) col)"
  have cc: "call_colour call = col"
    by (simp add: call_def)
  have unf: "orbit_draw st xxs yys itr X Y sX sY i out =
      orbit_draw st xxs yys itr (Re_Z X Y + cx st) (Im_Z X Y + cy st) X Y (i + 1) (out @ [call])"
    using in0 lt assms(1)
    by (subst orbit_draw.simps) (simp add: Let_def call_def col_def)
  have ih: "fst (orbit_draw st xxs yys itr (Re_Z X Y + cx st) (Im_Z X Y + cy st) X Y (i + 1)
                  (out @ [call])) = (i + 1) + int k
      \<and> map call_colour (snd (orbit_draw st xxs yys itr (Re_Z X Y + cx st) (Im_Z X Y + cy st)
                                X Y (i + 1) (out @ [call]))) =
          map call_colour (out @ [call]) @
          map (\<lambda>j. push_bit 8 ((i + 1) + int j + 1) sdiv itr) [0..<k]"
    by (rule Suc.IH [OF a1 a2 a3])
  have sh: "map (\<lambda>j. push_bit 8 (i + int j + 1) sdiv itr) [0..<Suc k] =
      col # map (\<lambda>j. push_bit 8 ((i + 1) + int j + 1) sdiv itr) [0..<k]"
    by (simp add: upt_conv_Cons map_Suc_upt [symmetric] col_def add.commute add.left_commute
        del: upt_Suc)
  show ?case
    using ih by (simp only: unf sh) (simp add: cc)
qed

text \<open>
  So whenever the orbit of the parameter leaves the radius at an iterate \<open>k + 1\<close> below
  the cap, the priming loop returns \<open>k + 1\<close> and the last step drawn has the colour 256.
\<close>

lemma orbit_gradient_last_colour:
  assumes "pal_gradient st \<noteq> 0"
    "\<forall>j<Suc k. inside (orbit (cx st) (cy st) (cx st, cy st) j)"
    "\<not> inside (orbit (cx st) (cy st) (cx st, cy st) (Suc k))"
    "int (Suc k) < orbit_iter_limit"
  shows "map call_colour (orbit_iterator xxs yys xxe yye st) ! Suc k = 256"
proof -
  let ?itr = "iter_while orbit_iter_limit (cx st) (cy st) (cx st) (cy st) 0"
  have lim: "0 + int (Suc k) < orbit_iter_limit"
    using assms(4) by simp
  have itr: "?itr = int (Suc k)"
    using iter_while_escape [OF assms(2,3) lim] by simp
  obtain i drawn where d:
    "orbit_draw st xxs yys ?itr (cx st) (cy st) (cx st) (cy st) 0 [] = (i, drawn)"
    by (cases "orbit_draw st xxs yys ?itr (cx st) (cy st) (cx st) (cy st) 0 []") blast
  have "map call_colour drawn =
      map (\<lambda>j. push_bit 8 (0 + int j + 1) sdiv ?itr) [0..<Suc k]"
    using orbit_draw_escape [OF assms(1,2,3) lim, of xxs yys ?itr "cx st" "cy st" "[]"] d
    by simp
  then have cols: "map call_colour drawn = map (\<lambda>j. push_bit 8 (int j + 1) sdiv int (Suc k)) [0..<Suc k]"
    by (simp add: itr)
  then have len: "length drawn = Suc k"
    by (metis length_map length_upt diff_zero)
  have "map call_colour (orbit_iterator xxs yys xxe yye st) =
      0 # map call_colour drawn @ [0xE0]"
    using d by (simp add: orbit_iterator_def Let_def)
  then have "map call_colour (orbit_iterator xxs yys xxe yye st) ! Suc k =
      map call_colour drawn ! k"
    using len by (simp add: nth_append)
  also have "\<dots> = push_bit 8 (int k + 1) sdiv int (Suc k)"
    unfolding cols by (simp del: upt_Suc)
  also have "\<dots> = (256 * (int k + 1)) sdiv (int k + 1)"
    by (simp add: push_bit_eq_mult algebra_simps)
  also have "\<dots> = 256 * (int k + 1) div (int k + 1)"
    by (simp add: signed_divide_int_def sgn_mult)
  also have "\<dots> = 256"
    by (subst nonzero_mult_div_cancel_right) simp_all
  finally show ?thesis .
qed

text \<open>
  Claim C9, evaluated on the code. The claim asks that every colour passed to the
  display lies between 0 and 255. For the parameter \<open>(1/2, 1/2)\<close> with the gradient
  switched on, the orbit leaves the radius at its fourth iterate, the priming loop
  counts \<^verbatim>\<open>itr = 4\<close>, and the drawing loop draws four steps in the colours 64, 128,
  192 and \<^verbatim>\<open>(4<<8)/4 = 256\<close>: the last call of \<^verbatim>\<open>putpixel\<close> is passed a colour outside
  the range. The iterates are dyadic fractions, so the counters and colours are those
  of the program; the pixel coordinates are those of exact arithmetic.
\<close>

theorem orbit_gradient_colour_256:
  "orbit_iterator 0 0 probe_size probe_size probe_state =
     [Rectfill 0 0 384 384 0,
      Putpixel 240 240 64, Putpixel 240 288 128, Putpixel 168 336 192, Putpixel 30 168 256,
      Textprintf 1 376 224 4]"
proof -
  have itr: "iter_while orbit_iter_limit (1 / 2) (1 / 2) (1 / 2) (1 / 2) 0 = 4"
    by (simp add: iter_while.simps Re_Z_def Im_Z_def orbit_iter_limit_def)
  have "orbit_draw probe_state 0 0 4 (1 / 2) (1 / 2) (1 / 2) (1 / 2) 0 [] =
      (4, [Putpixel 240 240 64, Putpixel 240 288 128, Putpixel 168 336 192, Putpixel 30 168 256])"
    by (simp add: orbit_draw.simps probe_state_def orbit_iter_limit_def Re_Z_def Im_Z_def
        d2i_def signed_divide_int_def Let_def)
  then show ?thesis
    using itr by (simp add: orbit_iterator_def probe_state_def probe_size_def Let_def)
qed


subsection \<open>The palette rotation\<close>

lemma load_save: "load_entry (save_entry e) = e"
  by (simp add: load_entry_def save_entry_def)

lemma length_fwd_shift: "length (fwd_shift i pal) = length pal"
  by (induction i arbitrary: pal) simp_all

lemma nth_fwd_shift:
  "i < length pal \<Longrightarrow> j < length pal \<Longrightarrow>
   fwd_shift i pal ! j = (if 0 < j \<and> j \<le> i then pal ! (j - 1) else pal ! j)"
proof (induction i arbitrary: pal)
  case 0
  then show ?case by simp
next
  case (Suc i)
  let ?p = "pal[Suc i := \<lparr>r = r (pal ! i), g = g (pal ! i), b = b (pal ! i)\<rparr>]"
  have e: "\<lparr>r = r (pal ! i), g = g (pal ! i), b = b (pal ! i)\<rparr> = pal ! i"
    by simp
  have "fwd_shift i ?p ! j = (if 0 < j \<and> j \<le> i then ?p ! (j - 1) else ?p ! j)"
    using Suc.prems by (intro Suc.IH) simp_all
  then have ih: "fwd_shift (Suc i) pal ! j = (if 0 < j \<and> j \<le> i then ?p ! (j - 1) else ?p ! j)"
    by simp
  consider "0 < j \<and> j \<le> i" | "j = Suc i" | "j = 0 \<or> Suc i < j"
    by arith
  then show ?case
  proof cases
    case 1
    then have "j - 1 \<noteq> Suc i"
      by arith
    with 1 show ?thesis
      using ih by (simp add: e)
  next
    case 2
    then show ?thesis
      using ih Suc.prems by (simp add: e)
  next
    case 3
    then show ?thesis
      using ih by (auto simp: e)
  qed
qed

lemma length_bwd_shift: "length (bwd_shift i pal) = length pal"
proof (induction i pal rule: bwd_shift.induct)
  case (1 i pal)
  then show ?case
    by (subst bwd_shift.simps) simp
qed

lemma nth_bwd_shift:
  "length pal = 256 \<Longrightarrow> j < 256 \<Longrightarrow>
   bwd_shift i pal ! j = (if i \<le> j \<and> j < 255 then pal ! (j + 1) else pal ! j)"
proof (induction i pal rule: bwd_shift.induct)
  case (1 i pal)
  show ?case
  proof (cases "i < 255")
    case True
    let ?p = "pal[i := \<lparr>r = r (pal ! (i + 1)), g = g (pal ! (i + 1)), b = b (pal ! (i + 1))\<rparr>]"
    have e: "\<lparr>r = r (pal ! (i + 1)), g = g (pal ! (i + 1)), b = b (pal ! (i + 1))\<rparr> = pal ! (i + 1)"
      by simp
    have "bwd_shift (i + 1) ?p ! j = (if i + 1 \<le> j \<and> j < 255 then ?p ! (j + 1) else ?p ! j)"
      using True "1.prems" by (intro "1.IH") simp_all
    then show ?thesis
      using True "1.prems" by (subst bwd_shift.simps) (auto simp: e nth_list_update)
  next
    case False
    then show ?thesis
      by (subst bwd_shift.simps) auto
  qed
qed

text \<open>One round of either loop body, in closed form.\<close>

lemma forward_body_closed:
  assumes "length pal = 256"
  shows "rot_forward_body (save_entry (pal ! 255), pal) =
         (save_entry ((last pal # butlast pal) ! 255), last pal # butlast pal)"
proof -
  have "(fwd_shift 255 pal)[0 := pal ! 255] = last pal # butlast pal"
  proof (rule nth_equalityI)
    show "length ((fwd_shift 255 pal)[0 := pal ! 255]) = length (last pal # butlast pal)"
      using assms by (simp add: length_fwd_shift)
  next
    fix j assume "j < length ((fwd_shift 255 pal)[0 := pal ! 255])"
    then have j: "j < 256"
      using assms by (simp add: length_fwd_shift)
    have "pal \<noteq> []"
      using assms by auto
    then have l: "last pal = pal ! 255"
      using assms by (simp add: last_conv_nth)
    show "(fwd_shift 255 pal)[0 := pal ! 255] ! j = (last pal # butlast pal) ! j"
    proof (cases j)
      case 0
      then show ?thesis
        using assms l by (simp add: length_fwd_shift)
    next
      case (Suc j')
      then show ?thesis
        using assms j by (simp add: nth_fwd_shift nth_butlast)
    qed
  qed
  then show ?thesis
    by (simp only: rot_forward_body_def Let_def prod.case load_save)
qed

lemma backward_body_closed:
  assumes "length pal = 256"
  shows "rot_backward_body (p, pal) = (p, tl pal @ [load_entry p])"
proof -
  have "(bwd_shift 0 pal)[255 := load_entry p] = tl pal @ [load_entry p]"
  proof (rule nth_equalityI)
    show "length ((bwd_shift 0 pal)[255 := load_entry p]) = length (tl pal @ [load_entry p])"
      using assms by (simp add: length_bwd_shift)
  next
    fix j assume "j < length ((bwd_shift 0 pal)[255 := load_entry p])"
    then have j: "j < 256"
      using assms by (simp add: length_bwd_shift)
    show "(bwd_shift 0 pal)[255 := load_entry p] ! j = (tl pal @ [load_entry p]) ! j"
    proof (cases "j = 255")
      case True
      then show ?thesis
        using assms by (simp add: length_bwd_shift nth_append)
    next
      case False
      then show ?thesis
        using assms j by (simp add: nth_bwd_shift nth_append nth_tl)
    qed
  qed
  then show ?thesis
    by (simp add: rot_backward_body_def Let_def)
qed

lemma length_rotr: "q \<noteq> [] \<Longrightarrow> length (rotr q) = length q"
  by (simp add: rotr_def)

lemma rotate1_rotr: "q \<noteq> [] \<Longrightarrow> rotate1 (rotr q) = q"
  by (simp add: rotr_def)

lemma length_rotr_funpow: "length q = 256 \<Longrightarrow> length ((rotr ^^ n) q) = 256"
proof (induction n)
  case 0
  then show ?case by simp
next
  case (Suc n)
  then have "(rotr ^^ n) q \<noteq> []"
    by auto
  then show ?case
    using Suc by (simp add: length_rotr)
qed

lemma rotate_rotr_funpow: "length q = 256 \<Longrightarrow> rotate n ((rotr ^^ n) q) = q"
proof (induction n)
  case 0
  then show ?case by simp
next
  case (Suc n)
  have ne: "(rotr ^^ n) q \<noteq> []"
    using length_rotr_funpow [OF Suc.prems, of n] by auto
  have "rotate (Suc n) ((rotr ^^ Suc n) q) = rotate n (rotate1 (rotr ((rotr ^^ n) q)))"
    by (simp add: rotate_def funpow_swap1)
  also have "\<dots> = rotate n ((rotr ^^ n) q)"
    using ne by (simp add: rotate1_rotr)
  finally show ?case
    using Suc by simp
qed

lemma forward_iter:
  assumes "length pal = 256"
  shows "(rot_forward_body ^^ n) (save_entry (pal ! 255), pal) =
         (save_entry ((rotr ^^ n) pal ! 255), (rotr ^^ n) pal)"
proof (induction n)
  case 0
  show ?case by simp
next
  case (Suc n)
  let ?q = "(rotr ^^ n) pal"
  have "length ?q = 256"
    by (rule length_rotr_funpow [OF assms])
  then have "rot_forward_body (save_entry (?q ! 255), ?q) =
      (save_entry (rotr ?q ! 255), rotr ?q)"
    unfolding rotr_def by (rule forward_body_closed)
  moreover have "(rot_forward_body ^^ Suc n) (save_entry (pal ! 255), pal) =
      rot_forward_body (save_entry (?q ! 255), ?q)"
    using Suc by simp
  ultimately show ?case
    by simp
qed

lemma rot_forward_pal_rotr: "length pal = 256 \<Longrightarrow> rot_forward_pal n pal = (rotr ^^ n) pal"
  by (simp add: rot_forward_pal_def forward_iter)

text \<open>
  What holds of the rotations: 256 rounds of the forward loop give the table back, one
  round of the backward loop is a rotation by one place, and one round forward followed
  by one round backward, each in a call of its own, gives the table back.
\<close>

lemma rot_forward_pal_256: "length pal = 256 \<Longrightarrow> rot_forward_pal 256 pal = pal"
proof -
  assume l: "length pal = 256"
  have "rotate 256 ((rotr ^^ 256) pal) = pal"
    by (rule rotate_rotr_funpow [OF l])
  moreover have "rotate 256 ((rotr ^^ 256) pal) = (rotr ^^ 256) pal"
    using length_rotr_funpow [OF l, of 256] by (intro rotate_id) simp
  ultimately show ?thesis
    using l by (simp add: rot_forward_pal_rotr)
qed

lemma backward_iter:
  assumes "length pal = 256" "n \<le> 256"
  shows "(rot_backward_body ^^ n) (p, pal) = (p, drop n pal @ replicate n (load_entry p))"
  using assms(2)
proof (induction n)
  case 0
  show ?case by simp
next
  case (Suc n)
  let ?q = "drop n pal @ replicate n (load_entry p)"
  have len: "length ?q = 256"
    using assms(1) Suc.prems by simp
  have ne: "drop n pal \<noteq> []"
    using assms(1) Suc.prems by simp
  have "(rot_backward_body ^^ Suc n) (p, pal) = rot_backward_body (p, ?q)"
    using Suc by simp
  also have "\<dots> = (p, tl ?q @ [load_entry p])"
    by (rule backward_body_closed [OF len])
  also have "tl ?q @ [load_entry p] = drop (Suc n) pal @ replicate (Suc n) (load_entry p)"
    using ne by (simp add: drop_Suc tl_drop replicate_append_same)
  finally show ?case .
qed

text \<open>
  What fails: from its second round on the backward loop stores the entry it kept
  before the loop, so after \<open>n\<close> rounds the last \<open>n\<close> entries all hold the first entry
  of the table it started from.
\<close>

lemma rot_backward_pal_closed:
  "length pal = 256 \<Longrightarrow> n \<le> 256 \<Longrightarrow>
   rot_backward_pal n pal = drop n pal @ replicate n (pal ! 0)"
  by (simp add: rot_backward_pal_def backward_iter load_save)

lemma rot_backward_pal_once: "length pal = 256 \<Longrightarrow> rot_backward_pal 1 pal = rotate1 pal"
proof -
  assume l: "length pal = 256"
  then obtain e q where "pal = e # q"
    by (cases pal) auto
  then show ?thesis
    using l rot_backward_pal_closed [of pal 1] by simp
qed

lemma forward_then_backward:
  "length pal = 256 \<Longrightarrow> rot_backward_pal 1 (rot_forward_pal 1 pal) = pal"
proof -
  assume l: "length pal = 256"
  then have ne: "pal \<noteq> []"
    by auto
  have "rot_forward_pal 1 pal = rotr pal"
    using l by (simp add: rot_forward_pal_rotr)
  moreover have len: "length (rotr pal) = 256"
    using l ne by (simp add: length_rotr)
  ultimately have "rot_backward_pal 1 (rot_forward_pal 1 pal) = rotate1 (rotr pal)"
    using rot_backward_pal_once [OF len] by simp
  also have "\<dots> = pal"
    by (rule rotate1_rotr [OF ne])
  finally show ?thesis .
qed

lemma length_set_default_pal: "length set_default_pal = 256"
  by (simp add: set_default_pal_def)

lemma set_default_pal_0: "set_default_pal ! 0 = \<lparr>r = 0, g = 0, b = 0\<rparr>"
  by (simp add: set_default_pal_def default_entry_def)

lemma set_default_pal_1: "set_default_pal ! 1 = \<lparr>r = 1, g = 0, b = 0\<rparr>"
  by (simp add: set_default_pal_def default_entry_def)

text \<open>
  Claim C7, evaluated on the code. The claim asks that 256 backward steps give the table
  back. Started on the default palette and left running for 256 ticks,
  \<^verbatim>\<open>rot_backward_pal\<close> ends with a table whose 256 entries are all the first entry of
  the default palette, black. After two ticks the entries 254 and 255 are both that
  entry, where a rotation would have put entry 1 at index 255. The forward loop, which
  reloads the kept entry in every round, gives the default palette back after 256 ticks.
\<close>

theorem rot_backward_pal_loses_entries:
  "rot_backward_pal 256 set_default_pal = replicate 256 \<lparr>r = 0, g = 0, b = 0\<rparr>
   \<and> rot_backward_pal 256 set_default_pal \<noteq> set_default_pal
   \<and> rot_backward_pal 2 set_default_pal ! 254 = set_default_pal ! 0
   \<and> rot_backward_pal 2 set_default_pal ! 255 = set_default_pal ! 0
   \<and> set_default_pal ! 1 \<noteq> set_default_pal ! 0
   \<and> rot_forward_pal 256 set_default_pal = set_default_pal"
proof -
  note l = length_set_default_pal
  have a: "rot_backward_pal 256 set_default_pal = replicate 256 \<lparr>r = 0, g = 0, b = 0\<rparr>"
    using rot_backward_pal_closed [OF l, of 256] l by (simp add: set_default_pal_0)
  have "replicate 256 \<lparr>r = 0, g = 0, b = 0\<rparr> ! 1 \<noteq> set_default_pal ! 1"
    using set_default_pal_1 by simp
  then have b: "rot_backward_pal 256 set_default_pal \<noteq> set_default_pal"
    using a by metis
  have "rot_backward_pal 2 set_default_pal = drop 2 set_default_pal @ replicate 2 (set_default_pal ! 0)"
    using rot_backward_pal_closed [OF l, of 2] by simp
  then have c: "rot_backward_pal 2 set_default_pal ! 254 = set_default_pal ! 0"
    "rot_backward_pal 2 set_default_pal ! 255 = set_default_pal ! 0"
    using l by (simp_all add: nth_append)
  have d: "set_default_pal ! 1 \<noteq> set_default_pal ! 0"
    using set_default_pal_0 set_default_pal_1 by simp
  have e: "rot_forward_pal 256 set_default_pal = set_default_pal"
    by (rule rot_forward_pal_256 [OF l])
  from a b c d e show ?thesis
    by blast
qed

end
